theory Spec2Isabelle
  imports Main
begin

section \<open>JavaScript values and objects\<close>

text \<open>
  The development embeds \<^verbatim>\<open>javascript/elements/parsedElements.js\<close>. Objects live in an
  explicit store and are named by addresses, since the source shares them: an attribute
  object is held by \<^verbatim>\<open>attributes\<close> and by \<^verbatim>\<open>_attr_hash\<close> at once, and an element is
  held by its parent's \<^verbatim>\<open>children\<close> while the caller goes on mutating it.
\<close>

type_synonym addr = nat

text \<open>
  The values that reach \<^verbatim>\<open>setContent\<close> and leave \<^verbatim>\<open>getContent\<close>. A function value is
  named by an element of \<open>'p\<close>; what it computes is given by an interpretation passed to
  \<^verbatim>\<open>getContent\<close>.
\<close>

datatype 'p jsval = Undefined | Null | Bool bool | Num int | Str string | Func 'p

fun isString :: "'p jsval \<Rightarrow> bool" where
  "isString (Str s) = True"
| "isString v = False"

fun isFunction :: "'p jsval \<Rightarrow> bool" where
  "isFunction (Func f) = True"
| "isFunction v = False"

text \<open>JavaScript truthiness, as used by \<^verbatim>\<open>||\<close>, \<^verbatim>\<open>!!\<close> and the conditional operator.\<close>

fun truthy :: "'p jsval \<Rightarrow> bool" where
  "truthy Undefined = False"
| "truthy Null = False"
| "truthy (Bool b) = b"
| "truthy (Num n) = (n \<noteq> 0)"
| "truthy (Str s) = (s \<noteq> [])"
| "truthy (Func f) = True"

text \<open>\<^verbatim>\<open>value || ''\<close> for an argument documented as a string: \<open>None\<close> is an absent one.\<close>

fun or_empty :: "string option \<Rightarrow> string" where
  "or_empty None = []"
| "or_empty (Some s) = (if s \<noteq> [] then s else [])"

text \<open>
  The properties every object inherits from \<^verbatim>\<open>Object.prototype\<close>: the seven of
  ECMAScript 5 (15.2.4), and the five the engines have beside them (Annex B of the later
  editions). The operator \<^verbatim>\<open>in\<close> finds them in the object literal \<^verbatim>\<open>{}\<close> that
  \<^verbatim>\<open>_attr_hash\<close> is: \<^verbatim>\<open>'constructor' in {}\<close> is true. All of them are functions but
  \<^verbatim>\<open>__proto__\<close>, which reads as \<^verbatim>\<open>Object.prototype\<close> itself.
\<close>

definition object_prototype_keys :: "string list" where
  "object_prototype_keys =
     [''constructor'', ''toString'', ''toLocaleString'', ''valueOf'',
      ''hasOwnProperty'', ''isPrototypeOf'', ''propertyIsEnumerable'',
      ''__defineGetter__'', ''__defineSetter__'', ''__lookupGetter__'', ''__lookupSetter__'',
      ''__proto__'']"

text \<open>An attribute object \<^verbatim>\<open>{name: ..., value: ...}\<close>.\<close>

record attribute =
  attr_name :: string
  attr_value :: string

text \<open>
  Modelled from the spec: the module \<^verbatim>\<open>elements\<close> (\<^verbatim>\<open>elems.create\<close>, \<^verbatim>\<open>elems.is\<close>) is not
  part of the sources at hand. Section 3 of the specification gives the three variants of
  a definition: an element definition "has name, attributes (ordered sequence of {name,
  value})", a snippet "has data", and a reference has "data = the name of another
  definition". The source reads \<^verbatim>\<open>name\<close>, \<^verbatim>\<open>data\<close> and \<^verbatim>\<open>attributes\<close> of one; a property a
  variant does not have is undefined (\<open>None\<close>).
\<close>

datatype resource =
    ElementDef string "(string \<times> string option) list option"
  | Snippet string
  | Reference string

fun res_name :: "resource \<Rightarrow> string option" where
  "res_name (ElementDef n as) = Some n"
| "res_name r = None"

fun res_data :: "resource \<Rightarrow> string option" where
  "res_data (ElementDef n as) = None"
| "res_data (Snippet d) = Some d"
| "res_data (Reference d) = Some d"

fun res_attributes :: "resource \<Rightarrow> (string \<times> string option) list option" where
  "res_attributes (ElementDef n as) = as"
| "res_attributes r = None"

text \<open>
  Modelled from the spec: the parser that builds a \<^verbatim>\<open>TreeNode\<close> is not part of the sources
  at hand. The record has the properties the source reads of a node, spelled as the
  source spells them, with the types section 3 of the specification gives them: "name
  (string), count (integer \<ge> 1, default 1), text (string or absent), isRepeating (boolean),
  hasImplicitName (boolean), attributes (ordered sequence of {name, value})". An absent
  property is \<open>None\<close>, an absent text \<open>Undefined\<close>.
\<close>

record 'p tree_node =
  node_name :: "string option"
  node_count :: "int option"
  node_text :: "'p jsval"
  node_is_repeating :: bool
  node_has_implict_name :: bool
  node_attributes :: "(string \<times> string option) list option"

text \<open>
  The fields of a \<^verbatim>\<open>ParsedElement\<close>. \<^verbatim>\<open>attributes\<close> and \<^verbatim>\<open>_attr_hash\<close> are undefined
  (\<open>None\<close>) until the first \<^verbatim>\<open>addAttribute\<close>. The fields \<^verbatim>\<open>syntax\<close> and \<^verbatim>\<open>value\<close> are
  spelled \<open>syntax_id\<close> and \<open>snippet_value\<close>.
\<close>

record 'p parsed_element =
  abbr :: "resource option"
  name :: "string option"
  real_name :: "string option"
  count :: int
  syntax_id :: string
  content :: "'p jsval"
  paste_content :: string
  repeat_by_lines :: bool
  is_repeating :: bool
  parent :: "addr option"
  has_implicit_name :: bool
  children :: "addr list"
  options :: "(string \<times> string) list"
  attributes :: "addr list option"
  attr_hash :: "(string \<rightharpoonup> addr) option"
  snippet_value :: "string option"

text \<open>
  The store: the elements and the attribute objects by address, the next free address,
  which every allocation takes, and the property \<^verbatim>\<open>value\<close> of \<^verbatim>\<open>Object.prototype\<close>, which
  \<^verbatim>\<open>addAttribute\<close> can write and which every object without a \<^verbatim>\<open>value\<close> of its own then
  shows (\<open>None\<close>: there is no such property, as in a fresh engine).
\<close>

record 'p heap =
  elems :: "addr \<rightharpoonup> 'p parsed_element"
  attrs :: "addr \<rightharpoonup> attribute"
  nxt :: addr
  proto_value :: "string option"

section \<open>The utilities the elements use\<close>

text \<open>
  Modelled from the spec: \<^verbatim>\<open>utils.replaceUnescapedSymbol\<close> is not part of the sources at
  hand. The specification gives its contract: it "unescapes a backslash-escaped occurrence
  of delimiterChar to a literal character, replaces unescaped occurrences with
  replacementToken". Every other character is copied.
\<close>

fun replaceUnescapedSymbol :: "string \<Rightarrow> char \<Rightarrow> string \<Rightarrow> string" where
  "replaceUnescapedSymbol [] d r = []"
| "replaceUnescapedSymbol [c] d r = (if c = d then r else [c])"
| "replaceUnescapedSymbol (c # c' # cs) d r =
     (if c = CHR 0x5C \<and> c' = d then d # replaceUnescapedSymbol cs d r
      else if c = d then r @ replaceUnescapedSymbol (c' # cs) d r
      else c # replaceUnescapedSymbol (c' # cs) d r)"

text \<open>
  \<^verbatim>\<open>utils.replaceUnescapedSymbol(s, '|', utils.getCaretPlaceholder())\<close>; the placeholder
  token \<open>ph\<close> is a parameter, the module that defines it being elsewhere.
\<close>

definition escapePipe :: "string \<Rightarrow> string \<Rightarrow> string" where
  "escapePipe ph s = replaceUnescapedSymbol s (CHR ''|'') ph"

section \<open>Attributes\<close>

text \<open>
  \<^verbatim>\<open>name in this._attr_hash\<close> followed by \<^verbatim>\<open>this._attr_hash[name]\<close>: an own property first,
  then an inherited one. \<open>Prototype\<close> is \<^verbatim>\<open>Object.prototype\<close>, found under \<^verbatim>\<open>__proto__\<close>;
  \<open>Inherited\<close> is a function of \<^verbatim>\<open>Object.prototype\<close>, or the string that
  \<^verbatim>\<open>Object.prototype.value\<close> is once it has been written (\<open>pv\<close>).
\<close>

datatype hash_entry = Own addr | Prototype | Inherited | Absent

definition hash_lookup :: "string option \<Rightarrow> (string \<rightharpoonup> addr) \<Rightarrow> string \<Rightarrow> hash_entry" where
  "hash_lookup pv h nm =
     (case h nm of
        Some a \<Rightarrow> Own a
      | None \<Rightarrow>
          if nm = ''__proto__'' then Prototype
          else if nm \<in> set object_prototype_keys \<or> (nm = ''value'' \<and> pv \<noteq> None) then Inherited
          else Absent)"

text \<open>The assignment to \<^verbatim>\<open>a.value\<close> in the branch of an attribute that exists.\<close>

definition merge_value :: "string \<Rightarrow> string \<Rightarrow> attribute \<Rightarrow> attribute" where
  "merge_value nm v a =
     (if nm = ''class''
      then a\<lparr>attr_value := attr_value a @ (if attr_value a \<noteq> [] then '' '' else []) @ v\<rparr>
      else a\<lparr>attr_value := v\<rparr>)"

text \<open>
  \<^verbatim>\<open>addAttribute\<close>. For \<^verbatim>\<open>__proto__\<close>, \<^verbatim>\<open>a\<close> is \<^verbatim>\<open>Object.prototype\<close> and line 81 writes
  \<^verbatim>\<open>Object.prototype.value\<close>. For another inherited property, \<^verbatim>\<open>a\<close> is a function, whose
  new property \<^verbatim>\<open>value\<close> nothing here reads, or a string, on which the assignment of
  line 81 has no effect (the source is not in strict mode). In all three cases the
  element keeps its attributes. A method is always called on an object; the branch of an
  unallocated \<open>this\<close> only makes the function total.
\<close>

definition addAttribute ::
  "string \<Rightarrow> 'p heap \<Rightarrow> addr \<Rightarrow> string \<Rightarrow> string option \<Rightarrow> 'p heap" where
  "addAttribute ph H this nm v =
     (case elems H this of
        None \<Rightarrow> H
      | Some e \<Rightarrow>
          let as = (case attributes e of None \<Rightarrow> [] | Some xs \<Rightarrow> xs);
              h = (case attr_hash e of None \<Rightarrow> Map.empty | Some m \<Rightarrow> m);
              val = escapePipe ph (or_empty v)
          in case hash_lookup (proto_value H) h nm of
               Own a \<Rightarrow>
                 H\<lparr>elems := (elems H)(this \<mapsto> e\<lparr>attributes := Some as, attr_hash := Some h\<rparr>),
                   attrs := (case attrs H a of
                               None \<Rightarrow> attrs H
                             | Some x \<Rightarrow> (attrs H)(a \<mapsto> merge_value nm val x))\<rparr>
             | Prototype \<Rightarrow>
                 H\<lparr>elems := (elems H)(this \<mapsto> e\<lparr>attributes := Some as, attr_hash := Some h\<rparr>),
                   proto_value := Some val\<rparr>
             | Inherited \<Rightarrow>
                 H\<lparr>elems := (elems H)(this \<mapsto> e\<lparr>attributes := Some as, attr_hash := Some h\<rparr>)\<rparr>
             | Absent \<Rightarrow>
                 H\<lparr>elems := (elems H)(this \<mapsto>
                              e\<lparr>attributes := Some (as @ [nxt H]),
                                attr_hash := Some (h(nm \<mapsto> nxt H))\<rparr>),
                   attrs := (attrs H)(nxt H \<mapsto> \<lparr>attr_name = nm, attr_value = val\<rparr>),
                   nxt := Suc (nxt H)\<rparr>)"

text \<open>
  \<^verbatim>\<open>attr.value\<close> for an attribute of a node or a definition: its own \<^verbatim>\<open>value\<close>, or without
  one (\<open>None\<close>) what \<^verbatim>\<open>Object.prototype.value\<close> is at that moment.
\<close>

fun read_value :: "string option \<Rightarrow> string option \<Rightarrow> string option" where
  "read_value pv None = pv"
| "read_value pv (Some s) = Some s"

text \<open>\<^verbatim>\<open>_.each(node.attributes, ...)\<close> in \<^verbatim>\<open>copyAttributes\<close>.\<close>

fun addAttributes ::
  "string \<Rightarrow> 'p heap \<Rightarrow> addr \<Rightarrow> (string \<times> string option) list \<Rightarrow> 'p heap" where
  "addAttributes ph H this [] = H"
| "addAttributes ph H this ((nm, v) # xs) =
     addAttributes ph (addAttribute ph H this nm (read_value (proto_value H) v)) this xs"

text \<open>
  \<^verbatim>\<open>copyAttributes(node)\<close>, given \<^verbatim>\<open>node && node.attributes\<close>: \<open>None\<close> when the source
  is absent or has no attributes.
\<close>

definition copyAttributes ::
  "string \<Rightarrow> 'p heap \<Rightarrow> addr \<Rightarrow> (string \<times> string option) list option \<Rightarrow> 'p heap" where
  "copyAttributes ph H this src =
     (case src of None \<Rightarrow> H | Some xs \<Rightarrow> addAttributes ph H this xs)"

text \<open>The array \<^verbatim>\<open>this.attributes\<close> as a reader sees it: the objects it holds, in order.\<close>

fun read_all :: "(addr \<rightharpoonup> 'a) \<Rightarrow> addr list \<Rightarrow> 'a list" where
  "read_all f [] = []"
| "read_all f (a # as) = (case f a of None \<Rightarrow> read_all f as | Some x \<Rightarrow> x # read_all f as)"

definition attributes_of :: "'p heap \<Rightarrow> addr \<Rightarrow> attribute list" where
  "attributes_of H this =
     (case elems H this of
        None \<Rightarrow> []
      | Some e \<Rightarrow> (case attributes e of None \<Rightarrow> [] | Some as \<Rightarrow> read_all (attrs H) as))"

section \<open>Content\<close>

text \<open>
  \<^verbatim>\<open>setContent\<close>: a string is escaped and stored, a function is stored as it is, and
  for any other \<open>data\<close> neither branch of the source runs.
\<close>

definition setContent :: "string \<Rightarrow> 'p heap \<Rightarrow> addr \<Rightarrow> 'p jsval \<Rightarrow> 'p heap" where
  "setContent ph H this data =
     (case elems H this of
        None \<Rightarrow> H
      | Some e \<Rightarrow>
          (case data of
             Str s \<Rightarrow> H\<lparr>elems := (elems H)(this \<mapsto> e\<lparr>content := Str (escapePipe ph (or_empty (Some s)))\<rparr>)\<rparr>
           | Func f \<Rightarrow> H\<lparr>elems := (elems H)(this \<mapsto> e\<lparr>content := Func f\<rparr>)\<rparr>
           | _ \<Rightarrow> H))"

text \<open>
  \<^verbatim>\<open>getContent\<close>. \<open>call f H this\<close> is what the function value \<open>f\<close> returns when it is
  applied to the element \<open>this\<close> in the store \<open>H\<close>; a producer reads the store and does
  not write it.
\<close>

definition getContent ::
  "('p \<Rightarrow> 'p heap \<Rightarrow> addr \<Rightarrow> 'p jsval) \<Rightarrow> 'p heap \<Rightarrow> addr \<Rightarrow> 'p jsval" where
  "getContent call H this =
     (case elems H this of
        None \<Rightarrow> Undefined
      | Some e \<Rightarrow>
          (case content e of
             Func f \<Rightarrow> call f H this
           | c \<Rightarrow> if truthy c then c else Str []))"

text \<open>
  \<^verbatim>\<open>setPasteContent\<close>; \<^verbatim>\<open>utils.escapeText\<close> is a parameter, its module being elsewhere.
\<close>

definition setPasteContent ::
  "(string \<Rightarrow> string) \<Rightarrow> 'p heap \<Rightarrow> addr \<Rightarrow> string \<Rightarrow> 'p heap" where
  "setPasteContent escapeText H this v =
     (case elems H this of
        None \<Rightarrow> H
      | Some e \<Rightarrow> H\<lparr>elems := (elems H)(this \<mapsto> e\<lparr>paste_content := escapeText v\<rparr>)\<rparr>)"

definition getPasteContent :: "'p heap \<Rightarrow> addr \<Rightarrow> string" where
  "getPasteContent H this = (case elems H this of None \<Rightarrow> [] | Some e \<Rightarrow> paste_content e)"

section \<open>The tree\<close>

text \<open>
  \<^verbatim>\<open>addChild\<close>: first \<^verbatim>\<open>elem.parent = this\<close>, then the push onto \<^verbatim>\<open>this.children\<close>, which
  reads \<open>this\<close> again since \<open>elem\<close> may be \<open>this\<close> itself.
\<close>

definition addChild :: "'p heap \<Rightarrow> addr \<Rightarrow> addr \<Rightarrow> 'p heap" where
  "addChild H this elem =
     (case elems H elem of
        None \<Rightarrow> H
      | Some c \<Rightarrow>
          let H1 = H\<lparr>elems := (elems H)(elem \<mapsto> c\<lparr>parent := Some this\<rparr>)\<rparr>
          in case elems H1 this of
               None \<Rightarrow> H
             | Some e \<Rightarrow> H1\<lparr>elems := (elems H1)(this \<mapsto> e\<lparr>children := children e @ [elem]\<rparr>)\<rparr>)"

definition hasChildren :: "'p heap \<Rightarrow> addr \<Rightarrow> bool" where
  "hasChildren H this = (case elems H this of None \<Rightarrow> False | Some e \<Rightarrow> children e \<noteq> [])"

text \<open>
  The loop of \<^verbatim>\<open>findDeepestChild\<close>. Nothing keeps \<^verbatim>\<open>addChild\<close> from closing a cycle, so
  the loop may run forever: \<open>None\<close> is the call that does not return. Reading
  \<^verbatim>\<open>children\<close> of something that is not an element is a \<^verbatim>\<open>TypeError\<close>.
\<close>

datatype error = TypeError

partial_function (option) deepest_loop :: "'p heap \<Rightarrow> addr \<Rightarrow> (error + addr) option" where
  "deepest_loop H deepestChild =
     (case elems H deepestChild of
        None \<Rightarrow> Some (Inl TypeError)
      | Some e \<Rightarrow>
          if children e \<noteq> [] then deepest_loop H (last (children e))
          else Some (Inr deepestChild))"

text \<open>\<^verbatim>\<open>findDeepestChild\<close>: \<open>Inr None\<close> is the result \<^verbatim>\<open>null\<close>.\<close>

definition findDeepestChild :: "'p heap \<Rightarrow> addr \<Rightarrow> (error + addr option) option" where
  "findDeepestChild H this =
     (case elems H this of
        None \<Rightarrow> Some (Inl TypeError)
      | Some e \<Rightarrow>
          if children e = [] then Some (Inr None)
          else map_option (map_sum id Some) (deepest_loop H this))"

section \<open>Construction\<close>

text \<open>
  \<^verbatim>\<open>_.extend({}, options)\<close> copies every enumerable property of \<^verbatim>\<open>options\<close>, the inherited
  ones after its own: a written \<^verbatim>\<open>Object.prototype.value\<close> too, unless \<^verbatim>\<open>options\<close> has a
  \<^verbatim>\<open>value\<close> of its own.
\<close>

definition extend :: "string option \<Rightarrow> (string \<times> string) list \<Rightarrow> (string \<times> string) list" where
  "extend pv os =
     os @ (case pv of
             None \<Rightarrow> []
           | Some x \<Rightarrow> if ''value'' \<in> fst ` set os then [] else [(''value'', x)])"

text \<open>
  \<^verbatim>\<open>new ParsedElement(node, syntax, resource, options)\<close>: the object is allocated at the
  next free address, its fields are set in the order of the source, and
  \<^verbatim>\<open>setContent(node.text)\<close> runs last. \<^verbatim>\<open>node.count || 1\<close> takes 1 for an absent count and
  for 0; \<^verbatim>\<open>node.count > 1\<close> is false for an absent count.
\<close>

definition ParsedElement ::
  "string \<Rightarrow> 'p heap \<Rightarrow> 'p tree_node \<Rightarrow> string \<Rightarrow> resource option \<Rightarrow>
   (string \<times> string) list option \<Rightarrow> 'p heap \<times> addr" where
  "ParsedElement ph H node syn resource opts =
     (let this = nxt H;
          e = \<lparr>abbr = resource,
               name = (case resource of Some r \<Rightarrow> res_name r | None \<Rightarrow> node_name node),
               real_name = node_name node,
               count = (case node_count node of None \<Rightarrow> 1 | Some n \<Rightarrow> if n \<noteq> 0 then n else 1),
               syntax_id = syn,
               content = Str [],
               paste_content = [],
               repeat_by_lines = node_is_repeating node,
               is_repeating = (case node_count node of None \<Rightarrow> False | Some n \<Rightarrow> n > 1),
               parent = None,
               has_implicit_name = node_has_implict_name node,
               children = [],
               options = extend (proto_value H) (case opts of None \<Rightarrow> [] | Some os \<Rightarrow> os),
               attributes = None,
               attr_hash = None,
               snippet_value = None\<rparr>;
          H1 = H\<lparr>elems := (elems H)(this \<mapsto> e), nxt := Suc (nxt H)\<rparr>
      in (setContent ph H1 this (node_text node), this))"

section \<open>The factories\<close>

text \<open>
  The \<open>resource\<close> argument of a factory: a name, a definition, or nothing. For a name,
  \<^verbatim>\<open>elems.create('element', name)\<close> is the element definition of that name without
  attributes and \<^verbatim>\<open>elems.create('snippet', text)\<close> the snippet of that data. The resource
  store is a parameter: \<open>getAbbreviation syn nm\<close> is \<^verbatim>\<open>res.getAbbreviation(syntax, name)\<close>
  and \<open>getSnippet syn nm\<close> is \<^verbatim>\<open>res.getSnippet(syntax, name)\<close>.
\<close>

datatype resource_arg = ByName string | Given resource | NoResource

text \<open>
  Lines 172 to 182 of the source: which definition the tag factory ends with. The second
  component lists the arguments of the calls of \<^verbatim>\<open>res.getAbbreviation\<close>, in order.
\<close>

definition resolve_resource ::
  "(string \<Rightarrow> string \<Rightarrow> resource option) \<Rightarrow> 'p tree_node \<Rightarrow> string \<Rightarrow> resource_arg \<Rightarrow>
   resource option \<times> (string \<times> string) list" where
  "resolve_resource getAbbreviation node syn resource =
     (let r0 = (case resource of
                  ByName s \<Rightarrow> Some (ElementDef s None)
                | Given r \<Rightarrow> Some r
                | NoResource \<Rightarrow> None);
          (r1, log1) =
            (case (r0, node_name node) of
               (None, Some nm) \<Rightarrow>
                 if nm \<noteq> [] then (getAbbreviation syn nm, [(syn, nm)]) else (r0, [])
             | _ \<Rightarrow> (r0, []))
      in case r1 of
           Some (Reference d) \<Rightarrow> (getAbbreviation syn d, log1 @ [(syn, d)])
         | _ \<Rightarrow> (r1, log1))"

text \<open>The factory registered as \<^verbatim>\<open>parsedElement\<close>.\<close>

definition parsedElement ::
  "string \<Rightarrow> (string \<Rightarrow> string \<Rightarrow> resource option) \<Rightarrow> 'p heap \<Rightarrow> 'p tree_node \<Rightarrow> string \<Rightarrow>
   resource_arg \<Rightarrow> (string \<times> string) list option \<Rightarrow> ('p heap \<times> addr) \<times> (string \<times> string) list" where
  "parsedElement ph getAbbreviation H node syn resource opts =
     (let (r, log) = resolve_resource getAbbreviation node syn resource;
          (H1, elem) = ParsedElement ph H node syn r opts;
          H2 = (case elems H1 elem of
                  None \<Rightarrow> H1
                | Some e \<Rightarrow>
                    (case abbr e of
                       None \<Rightarrow> H1
                     | Some d \<Rightarrow> copyAttributes ph H1 elem (res_attributes d)));
          H3 = copyAttributes ph H2 elem (node_attributes node)
      in ((H3, elem), log))"

text \<open>
  The factory registered as \<^verbatim>\<open>parsedSnippet\<close>. Line 205 hands the snippet text to
  \<^verbatim>\<open>utils.replaceUnescapedSymbol\<close>, a function of text: where the definition passed in has
  no \<^verbatim>\<open>data\<close> the text is undefined and the call raises a \<^verbatim>\<open>TypeError\<close>, before any
  attribute is set.
\<close>

definition parsedSnippet ::
  "string \<Rightarrow> (string \<Rightarrow> string option \<Rightarrow> string) \<Rightarrow> 'p heap \<Rightarrow> 'p tree_node \<Rightarrow> string \<Rightarrow>
   resource_arg \<Rightarrow> (string \<times> string) list option \<Rightarrow> error + 'p heap \<times> addr" where
  "parsedSnippet ph getSnippet H node syn resource opts =
     (let r = (case resource of
                 ByName s \<Rightarrow> Some (Snippet s)
               | Given d \<Rightarrow> Some d
               | NoResource \<Rightarrow> None);
          (H1, elem) = ParsedElement ph H node syn r opts;
          data = (case r of
                    Some d \<Rightarrow> res_data d
                  | None \<Rightarrow>
                      Some (getSnippet syn
                              (case elems H1 elem of None \<Rightarrow> None | Some e \<Rightarrow> name e)))
      in case data of
           None \<Rightarrow> Inl TypeError
         | Some snippet_text \<Rightarrow>
             let H2 = (case elems H1 elem of
                         None \<Rightarrow> H1
                       | Some e \<Rightarrow>
                           H1\<lparr>elems := (elems H1)(elem \<mapsto> e\<lparr>snippet_value := Some (escapePipe ph snippet_text)\<rparr>)\<rparr>);
                 H3 = addAttribute ph H2 elem ''id'' (Some ph);
                 H4 = addAttribute ph H3 elem ''class'' (Some ph)
             in Inr (copyAttributes ph H4 elem (node_attributes node), elem))"

section \<open>Notions used to state the properties\<close>

text \<open>The name an attribute object carries in the store.\<close>

definition name_at :: "'p heap \<Rightarrow> addr \<Rightarrow> string" where
  "name_at H a = (case attrs H a of None \<Rightarrow> [] | Some x \<Rightarrow> attr_name x)"

text \<open>
  What the constructor and the methods keep true of an element: \<^verbatim>\<open>attributes\<close> and
  \<^verbatim>\<open>_attr_hash\<close> are set together, the array holds allocated attribute objects with
  distinct names, and the hash maps exactly those names to those objects.
\<close>

definition attrs_inv :: "'p heap \<Rightarrow> addr \<Rightarrow> bool" where
  "attrs_inv H this =
     (case elems H this of
        None \<Rightarrow> False
      | Some e \<Rightarrow>
          (case (attributes e, attr_hash e) of
             (None, None) \<Rightarrow> True
           | (Some as, Some h) \<Rightarrow>
               list_all (\<lambda>a. a < nxt H \<and> attrs H a \<noteq> None) as \<and>
               distinct (map (name_at H) as) \<and>
               h = map_of (map (\<lambda>a. (name_at H a, a)) as)
           | _ \<Rightarrow> False))"

text \<open>
  A name an empty hash has by inheritance, given what \<^verbatim>\<open>Object.prototype.value\<close> is.
\<close>

definition inherited :: "string option \<Rightarrow> string \<Rightarrow> bool" where
  "inherited pv nm \<longleftrightarrow> nm \<in> set object_prototype_keys \<or> (nm = ''value'' \<and> pv \<noteq> None)"

text \<open>
  The merge rule of \<^verbatim>\<open>addAttribute\<close> on the sequence of attributes a reader sees, and
  what the call makes of \<^verbatim>\<open>Object.prototype.value\<close>.
\<close>

definition merge_attribute ::
  "string option \<Rightarrow> string \<Rightarrow> string \<Rightarrow> attribute list \<Rightarrow> attribute list" where
  "merge_attribute pv nm val xs =
     (if nm \<in> set (map attr_name xs)
      then map (\<lambda>x. if attr_name x = nm then merge_value nm val x else x) xs
      else if inherited pv nm then xs
      else xs @ [\<lparr>attr_name = nm, attr_value = val\<rparr>])"

definition written_value ::
  "string option \<Rightarrow> string \<Rightarrow> string \<Rightarrow> attribute list \<Rightarrow> string option" where
  "written_value pv nm val xs =
     (if nm = ''__proto__'' \<and> nm \<notin> set (map attr_name xs) then Some val else pv)"

text \<open>
  An empty store in a fresh engine, and a node \<^verbatim>\<open>div\<close> without count, text or attributes.
\<close>

definition empty_heap :: "'p heap" where
  "empty_heap = \<lparr>elems = Map.empty, attrs = Map.empty, nxt = 0, proto_value = None\<rparr>"

definition div_node :: "'p tree_node" where
  "div_node = \<lparr>node_name = Some ''div'', node_count = None, node_text = Undefined,
                node_is_repeating = False, node_has_implict_name = False,
                node_attributes = None\<rparr>"

text \<open>
  The element \<^verbatim>\<open>new ParsedElement(div_node, 'html')\<close> builds in the empty store, at
  address 0, with a placeholder token of its own.
\<close>

definition fresh_div :: "unit heap" where
  "fresh_div = fst (ParsedElement ''{caret}'' empty_heap div_node ''html'' None None)"

text \<open>
  A sequence of \<^verbatim>\<open>addAttribute\<close> calls, as \<^verbatim>\<open>copyAttributes\<close> makes them, on the sequence
  of attributes a reader sees.
\<close>

fun merge_attributes ::
  "string \<Rightarrow> string option \<Rightarrow> attribute list \<Rightarrow> (string \<times> string option) list \<Rightarrow> attribute list" where
  "merge_attributes ph pv ys [] = ys"
| "merge_attributes ph pv ys ((nm, v) # xs) =
     merge_attributes ph
       (written_value pv nm (escapePipe ph (or_empty (read_value pv v))) ys)
       (merge_attribute pv nm (escapePipe ph (or_empty (read_value pv v))) ys) xs"

text \<open>
  What \<^verbatim>\<open>Object.prototype.value\<close> is after such a sequence on an element that has no
  attribute \<^verbatim>\<open>__proto__\<close>.
\<close>

fun proto_after :: "string \<Rightarrow> string option \<Rightarrow> (string \<times> string option) list \<Rightarrow> string option" where
  "proto_after ph pv [] = pv"
| "proto_after ph pv ((n, v) # xs) =
     proto_after ph
       (if n = ''__proto__'' then Some (escapePipe ph (or_empty (read_value pv v))) else pv) xs"

text \<open>The values of the attributes of one name.\<close>

definition values_of :: "string \<Rightarrow> attribute list \<Rightarrow> string list" where
  "values_of nm ys = map attr_value (filter (\<lambda>x. attr_name x = nm) ys)"

text \<open>
  What the value \<open>d\<close> of the attribute \<open>nm\<close> becomes under the entries of that name in
  such a sequence.
\<close>

fun merged_value ::
  "string \<Rightarrow> string option \<Rightarrow> string \<Rightarrow> string \<Rightarrow> (string \<times> string option) list \<Rightarrow> string" where
  "merged_value ph pv nm d [] = d"
| "merged_value ph pv nm d ((n, v) # xs) =
     merged_value ph
       (if n = ''__proto__'' then Some (escapePipe ph (or_empty (read_value pv v))) else pv)
       nm
       (if n = nm
        then attr_value (merge_value nm (escapePipe ph (or_empty (read_value pv v)))
                           \<lparr>attr_name = nm, attr_value = d\<rparr>)
        else d)
       xs"

text \<open>\<^verbatim>\<open>node.attributes\<close> as the loop of \<^verbatim>\<open>copyAttributes\<close> sees it.\<close>

definition node_attribute_list :: "'p tree_node \<Rightarrow> (string \<times> string option) list" where
  "node_attribute_list node = (case node_attributes node of None \<Rightarrow> [] | Some xs \<Rightarrow> xs)"

text \<open>
  Two nodes with attributes, and the snippet element the factory builds for a node in
  the empty store.
\<close>

definition foo_node :: "unit tree_node" where
  "foo_node = div_node\<lparr>node_attributes := Some [(''class'', Some ''foo'')]\<rparr>"

definition main_node :: "unit tree_node" where
  "main_node = div_node\<lparr>node_attributes := Some [(''id'', Some ''main''), (''class'', Some ''foo'')]\<rparr>"

definition example_snippet :: "unit tree_node \<Rightarrow> error + unit heap \<times> addr" where
  "example_snippet node =
     parsedSnippet ''{caret}'' (\<lambda>syn nm. []) empty_heap node ''html'' (ByName ''<p>|</p>'') None"


text \<open>The calls a caller makes on elements after their construction.\<close>

datatype 'p operation =
    AddChild addr addr
  | AddAttribute addr string "string option"
  | CopyAttributes addr "(string \<times> string option) list option"
  | SetContent addr "'p jsval"
  | SetPasteContent addr string

fun apply_operation :: "string \<Rightarrow> (string \<Rightarrow> string) \<Rightarrow> 'p heap \<Rightarrow> 'p operation \<Rightarrow> 'p heap" where
  "apply_operation ph esc H (AddChild this elem) = addChild H this elem"
| "apply_operation ph esc H (AddAttribute this nm v) = addAttribute ph H this nm v"
| "apply_operation ph esc H (CopyAttributes this src) = copyAttributes ph H this src"
| "apply_operation ph esc H (SetContent this d) = setContent ph H this d"
| "apply_operation ph esc H (SetPasteContent this v) = setPasteContent esc H this v"

fun apply_operations :: "string \<Rightarrow> (string \<Rightarrow> string) \<Rightarrow> 'p heap \<Rightarrow> 'p operation list \<Rightarrow> 'p heap" where
  "apply_operations ph esc H [] = H"
| "apply_operations ph esc H (x # xs) = apply_operations ph esc (apply_operation ph esc H x) xs"

text \<open>Every element of \<open>H\<close> is in \<open>H'\<close> with the same \<^verbatim>\<open>count\<close> and \<^verbatim>\<open>is_repeating\<close>.\<close>

definition count_kept :: "'p heap \<Rightarrow> 'p heap \<Rightarrow> bool" where
  "count_kept H H' \<longleftrightarrow>
     (\<forall>a e. elems H a = Some e \<longrightarrow>
        (\<exists>e'. elems H' a = Some e' \<and> count e' = count e \<and> is_repeating e' = is_repeating e))"

text \<open>A node \<^verbatim>\<open>div*3\<close>.\<close>

definition triple_node :: "unit tree_node" where
  "triple_node = div_node\<lparr>node_count := Some 3\<rparr>"

text \<open>\<^verbatim>\<open>self.children\<close>, as a content producer reads it.\<close>

definition children_of :: "'p heap \<Rightarrow> addr \<Rightarrow> addr list" where
  "children_of H a = (case elems H a of None \<Rightarrow> [] | Some e \<Rightarrow> children e)"

text \<open>The store with two fresh elements, at 0 and 1, and the producer that returns \<^verbatim>\<open>self.children.length\<close>.\<close>

definition two_divs :: "unit heap" where
  "two_divs = fst (ParsedElement ''{caret}'' fresh_div div_node ''html'' None None)"

definition children_length :: "unit \<Rightarrow> unit heap \<Rightarrow> addr \<Rightarrow> unit jsval" where
  "children_length f H self = Num (int (length (children_of H self)))"

text \<open>
  \<open>last_chain H a bs\<close>: starting at \<open>a\<close> and going to the last child again and again
  visits \<open>bs\<close> and ends there, at an element without children.
\<close>

fun last_chain :: "'p heap \<Rightarrow> addr \<Rightarrow> addr list \<Rightarrow> bool" where
  "last_chain H a [] = (case elems H a of None \<Rightarrow> False | Some e \<Rightarrow> children e = [])"
| "last_chain H a (b # bs) =
     (case elems H a of
        None \<Rightarrow> False
      | Some e \<Rightarrow> children e \<noteq> [] \<and> last (children e) = b \<and> last_chain H b bs)"

text \<open>The store with four fresh elements, at 0, 1, 2 and 3.\<close>

definition four_divs :: "unit heap" where
  "four_divs =
     fst (ParsedElement ''{caret}''
            (fst (ParsedElement ''{caret}'' two_divs div_node ''html'' None None))
            div_node ''html'' None None)"

text \<open>Every element of \<open>H\<close> is in \<open>H'\<close> with the same \<^verbatim>\<open>name\<close>, \<^verbatim>\<open>real_name\<close> and \<^verbatim>\<open>_abbr\<close>.\<close>

definition names_kept :: "'p heap \<Rightarrow> 'p heap \<Rightarrow> bool" where
  "names_kept H H' \<longleftrightarrow>
     (\<forall>a e. elems H a = Some e \<longrightarrow>
        (\<exists>e'. elems H' a = Some e' \<and> name e' = name e \<and> real_name e' = real_name e \<and>
              abbr e' = abbr e))"

text \<open>
  A resource store where \<^verbatim>\<open>bq\<close> refers to \<^verbatim>\<open>blockquote\<close>, a node \<^verbatim>\<open>bq\<close>, and the element the
  tag factory builds for it in the empty store.
\<close>

definition example_store :: "string \<Rightarrow> string \<Rightarrow> resource option" where
  "example_store syn nm =
     (if nm = ''bq'' then Some (Reference ''blockquote'')
      else if nm = ''blockquote'' then Some (ElementDef ''blockquote'' None)
      else None)"

definition bq_node :: "unit tree_node" where
  "bq_node = div_node\<lparr>node_name := Some ''bq''\<rparr>"

definition example_element :: "(unit heap \<times> addr) \<times> (string \<times> string) list" where
  "example_element = parsedElement ''{caret}'' example_store empty_heap bq_node ''html'' NoResource None"

text \<open>The attribute objects an element holds in \<^verbatim>\<open>attributes\<close>.\<close>

definition attr_addrs :: "'p heap \<Rightarrow> addr \<Rightarrow> addr list" where
  "attr_addrs H a =
     (case elems H a of
        None \<Rightarrow> []
      | Some e \<Rightarrow> (case attributes e of None \<Rightarrow> [] | Some as \<Rightarrow> as))"

text \<open>
  What holds of every store the code builds: each element lies below the next free
  address and satisfies \<open>attrs_inv\<close>, and no attribute object belongs to two elements.
\<close>

definition heap_inv :: "'p heap \<Rightarrow> bool" where
  "heap_inv H \<longleftrightarrow>
     (\<forall>a. elems H a \<noteq> None \<longrightarrow> a < nxt H \<and> attrs_inv H a) \<and>
     (\<forall>a b. a \<noteq> b \<longrightarrow> set (attr_addrs H a) \<inter> set (attr_addrs H b) = {})"

text \<open>
  A \<open>resource\<close> argument from which line 202 gets a snippet text: any but a definition
  without \<^verbatim>\<open>data\<close>.
\<close>

fun has_data :: "resource_arg \<Rightarrow> bool" where
  "has_data (Given d) = (res_data d \<noteq> None)"
| "has_data r = True"

text \<open>The attributes of the element a call of the snippet factory returns.\<close>

definition returned_attributes :: "error + 'p heap \<times> addr \<Rightarrow> error + attribute list" where
  "returned_attributes r = map_sum id (\<lambda>(H, elem). attributes_of H elem) r"

text \<open>
  A node with an attribute \<^verbatim>\<open>__proto__\<close> followed by an \<^verbatim>\<open>id\<close> without value, and a node with
  an attribute \<^verbatim>\<open>__defineGetter__\<close>.
\<close>

definition proto_node :: "unit tree_node" where
  "proto_node = div_node\<lparr>node_attributes := Some [(''__proto__'', Some ''x''), (''id'', None)]\<rparr>"

definition getter_node :: "unit tree_node" where
  "getter_node = div_node\<lparr>node_attributes := Some [(''__defineGetter__'', Some ''g'')]\<rparr>"

section \<open>The attribute sequence under addAttribute\<close>

lemma read_all_append: "read_all f (as @ bs) = read_all f as @ read_all f bs"
  by (induction as) (auto split: option.splits)

lemma read_all_fresh:
  "list_all (\<lambda>a. a < (n::nat)) as \<Longrightarrow> read_all (f(n \<mapsto> x)) as = read_all f as"
  by (induction as) (auto split: option.splits)

lemma read_all_names:
  "list_all (\<lambda>a. f a \<noteq> None) as \<Longrightarrow>
   map attr_name (read_all f as) = map (\<lambda>a. case f a of None \<Rightarrow> [] | Some x \<Rightarrow> attr_name x) as"
  by (induction as) (auto split: option.splits)

lemma map_of_names_None:
  "map_of (map (\<lambda>a. (g a, a)) as) nm = None \<longleftrightarrow> nm \<notin> set (map g as)"
  by (induction as) auto

lemma map_of_names_Some:
  "distinct (map g as) \<Longrightarrow> map_of (map (\<lambda>a. (g a, a)) as) nm = Some a \<longleftrightarrow> a \<in> set as \<and> g a = nm"
  by (induction as) (auto simp: rev_image_eqI)

lemma read_all_other:
  "\<forall>c\<in>set as. f' c = f c \<and> (case f c of None \<Rightarrow> [] | Some z \<Rightarrow> attr_name z) \<noteq> attr_name x \<Longrightarrow>
   read_all f' as = map (\<lambda>y. if attr_name y = attr_name x then g y else y) (read_all f as)"
  by (induction as) (auto split: option.splits)

lemma read_all_changed:
  "distinct (map (\<lambda>a. case f a of None \<Rightarrow> [] | Some x \<Rightarrow> attr_name x) as) \<Longrightarrow>
   list_all (\<lambda>a. f a \<noteq> None) as \<Longrightarrow> a \<in> set as \<Longrightarrow> f a = Some x \<Longrightarrow>
   f' a = Some (g x) \<Longrightarrow> \<forall>c. c \<noteq> a \<longrightarrow> f' c = f c \<Longrightarrow>
   read_all f' as = map (\<lambda>y. if attr_name y = attr_name x then g y else y) (read_all f as)"
proof (induction as)
  case Nil
  then show ?case by simp
next
  case (Cons b as)
  show ?case
  proof (cases "b = a")
    case True
    have other: "\<forall>c\<in>set as. (case f c of None \<Rightarrow> [] | Some z \<Rightarrow> attr_name z) \<noteq> attr_name x"
      using Cons.prems(1,4) True by (auto simp: image_iff)
    then have "a \<notin> set as"
      using Cons.prems(4) by force
    then have "\<forall>c\<in>set as. f' c = f c \<and> (case f c of None \<Rightarrow> [] | Some z \<Rightarrow> attr_name z) \<noteq> attr_name x"
      using other Cons.prems(6) by auto
    then have "read_all f' as = map (\<lambda>y. if attr_name y = attr_name x then g y else y) (read_all f as)"
      by (rule read_all_other)
    with True Cons.prems(4,5) show ?thesis by simp
  next
    case False
    then have "a \<in> set as" using Cons.prems by simp
    moreover have "attr_name (the (f b)) \<noteq> attr_name x"
      using Cons.prems False \<open>a \<in> set as\<close> by (auto simp: image_iff split: option.splits)
    ultimately show ?thesis using Cons False by (auto split: option.splits)
  qed
qed

lemma read_all_update:
  "distinct (map (\<lambda>a. case f a of None \<Rightarrow> [] | Some x \<Rightarrow> attr_name x) as) \<Longrightarrow>
   list_all (\<lambda>a. f a \<noteq> None) as \<Longrightarrow> a \<in> set as \<Longrightarrow> f a = Some x \<Longrightarrow>
   read_all (f(a \<mapsto> g x)) as =
   map (\<lambda>y. if attr_name y = attr_name x then g y else y) (read_all f as)"
  by (rule read_all_changed) auto


lemma attrs_inv_names:
  assumes "elems H this = Some e" "attributes e = Some as" "attr_hash e = Some h" "attrs_inv H this"
  shows "map attr_name (read_all (attrs H) as) = map (name_at H) as"
proof -
  have "list_all (\<lambda>a. attrs H a \<noteq> None) as"
    using assms by (simp add: attrs_inv_def list_all_iff)
  then show ?thesis
    by (simp add: read_all_names name_at_def)
qed

lemma addAttribute_new:
  assumes "attrs_inv H this" "nm \<notin> set (map attr_name (attributes_of H this))"
    "\<not> inherited (proto_value H) nm"
  shows "attributes_of (addAttribute ph H this nm v) this =
           attributes_of H this @ [\<lparr>attr_name = nm, attr_value = escapePipe ph (or_empty v)\<rparr>]"
proof -
  obtain e where e: "elems H this = Some e"
    using assms(1) by (auto simp: attrs_inv_def split: option.splits)
  show ?thesis
  proof (cases "attributes e")
    case None
    then have "attr_hash e = None"
      using assms(1) e by (auto simp: attrs_inv_def split: option.splits)
    with None e assms(3) show ?thesis
      by (auto simp: addAttribute_def attributes_of_def hash_lookup_def Let_def inherited_def
            object_prototype_keys_def)
  next
    case (Some as)
    then obtain h where h: "attr_hash e = Some h"
      using assms(1) e by (auto simp: attrs_inv_def split: option.splits)
    have inv: "list_all (\<lambda>a. a < nxt H \<and> attrs H a \<noteq> None) as"
      "h = map_of (map (\<lambda>a. (name_at H a, a)) as)"
      using assms(1) e Some h by (simp_all add: attrs_inv_def)
    have "nm \<notin> set (map (name_at H) as)"
      using assms(2) attrs_inv_names[OF e Some h assms(1)] e Some by (simp add: attributes_of_def)
    then have "h nm = None"
      using inv(2) by (simp add: map_of_names_None)
    then have look: "hash_lookup (proto_value H) h nm = Absent"
      using assms(3) by (auto simp: hash_lookup_def inherited_def object_prototype_keys_def)
    have "list_all (\<lambda>a. a < nxt H) as"
      using inv(1) by (simp add: list_all_iff)
    then have "read_all ((attrs H)(nxt H \<mapsto> x)) as = read_all (attrs H) as" for x
      by (rule read_all_fresh)
    then show ?thesis
      using e Some h look
      by (simp add: addAttribute_def attributes_of_def Let_def read_all_append)
  qed
qed


lemma merge_value_name: "attr_name (merge_value nm val x) = attr_name x"
  by (simp add: merge_value_def)

lemma addAttribute_existing:
  assumes "attrs_inv H this" "nm \<in> set (map attr_name (attributes_of H this))"
  shows "attributes_of (addAttribute ph H this nm v) this =
           map (\<lambda>x. if attr_name x = nm then merge_value nm (escapePipe ph (or_empty v)) x else x)
             (attributes_of H this)"
proof -
  obtain e where e: "elems H this = Some e"
    using assms(1) by (auto simp: attrs_inv_def split: option.splits)
  obtain as where as: "attributes e = Some as"
    using assms(2) e by (cases "attributes e") (auto simp: attributes_of_def)
  then obtain h where h: "attr_hash e = Some h"
    using assms(1) e by (auto simp: attrs_inv_def split: option.splits)
  have inv: "list_all (\<lambda>a. a < nxt H \<and> attrs H a \<noteq> None) as"
    "distinct (map (name_at H) as)"
    "h = map_of (map (\<lambda>a. (name_at H a, a)) as)"
    using assms(1) e as h by (simp_all add: attrs_inv_def)
  have "nm \<in> set (map (name_at H) as)"
    using assms(2) attrs_inv_names[OF e as h assms(1)] e as by (simp add: attributes_of_def)
  then obtain a where a: "a \<in> set as" "name_at H a = nm"
    by auto
  then have "h nm = Some a"
    using inv(2,3) by (simp add: map_of_names_Some)
  then have look: "hash_lookup (proto_value H) h nm = Own a"
    by (simp add: hash_lookup_def)
  obtain x where x: "attrs H a = Some x"
    using inv(1) a(1) by (auto simp: list_all_iff)
  then have xn: "attr_name x = nm"
    using a(2) by (simp add: name_at_def)
  have all: "list_all (\<lambda>a. attrs H a \<noteq> None) as"
    using inv(1) by (simp add: list_all_iff)
  have dist: "distinct (map (\<lambda>a. case attrs H a of None \<Rightarrow> [] | Some x \<Rightarrow> attr_name x) as)"
    using inv(2) by (simp add: name_at_def[abs_def])
  have "read_all ((attrs H)(a \<mapsto> merge_value nm val x)) as =
          map (\<lambda>y. if attr_name y = attr_name x then merge_value nm val y else y) (read_all (attrs H) as)" for val
    by (rule read_all_update[OF dist all a(1) x])
  then show ?thesis
    using e as h look x xn
    by (simp add: addAttribute_def attributes_of_def Let_def)
qed

lemma hash_lookup_inherited:
  "h nm = None \<Longrightarrow> inherited pv nm \<Longrightarrow>
   hash_lookup pv h nm = (if nm = ''__proto__'' then Prototype else Inherited)"
  by (auto simp: hash_lookup_def inherited_def)

lemma addAttribute_inherited:
  assumes "attrs_inv H this" "nm \<notin> set (map attr_name (attributes_of H this))"
    "inherited (proto_value H) nm"
  shows "attributes_of (addAttribute ph H this nm v) this = attributes_of H this"
proof -
  obtain e where e: "elems H this = Some e"
    using assms(1) by (auto simp: attrs_inv_def split: option.splits)
  show ?thesis
  proof (cases "attributes e")
    case None
    then have "attr_hash e = None"
      using assms(1) e by (auto simp: attrs_inv_def split: option.splits)
    with None e show ?thesis
      by (simp add: addAttribute_def attributes_of_def hash_lookup_inherited[OF _ assms(3)] Let_def)
  next
    case (Some as)
    then obtain h where h: "attr_hash e = Some h"
      using assms(1) e by (auto simp: attrs_inv_def split: option.splits)
    have inv: "h = map_of (map (\<lambda>a. (name_at H a, a)) as)"
      using assms(1) e Some h by (simp_all add: attrs_inv_def)
    have "nm \<notin> set (map (name_at H) as)"
      using assms(2) attrs_inv_names[OF e Some h assms(1)] e Some by (simp add: attributes_of_def)
    then have "h nm = None"
      using inv by (simp add: map_of_names_None)
    then have look: "hash_lookup (proto_value H) h nm = (if nm = ''__proto__'' then Prototype else Inherited)"
      using assms(3) by (rule hash_lookup_inherited)
    then show ?thesis
      using e Some h
      by (simp add: addAttribute_def attributes_of_def Let_def)
  qed
qed

lemma addAttribute_merge:
  assumes "attrs_inv H this"
  shows "attributes_of (addAttribute ph H this nm v) this =
           merge_attribute (proto_value H) nm (escapePipe ph (or_empty v)) (attributes_of H this)"
  using addAttribute_new[OF assms] addAttribute_existing[OF assms] addAttribute_inherited[OF assms]
  unfolding merge_attribute_def by presburger

lemma proto_value_addAttribute:
  assumes "attrs_inv H this"
  shows "proto_value (addAttribute ph H this nm v) =
           written_value (proto_value H) nm (escapePipe ph (or_empty v)) (attributes_of H this)"
proof -
  obtain e where e: "elems H this = Some e"
    using assms by (auto simp: attrs_inv_def split: option.splits)
  let ?h = "case attr_hash e of None \<Rightarrow> Map.empty | Some m \<Rightarrow> m"
  have names: "?h nm = None \<longleftrightarrow> nm \<notin> set (map attr_name (attributes_of H this))"
  proof (cases "attributes e")
    case None
    then have "attr_hash e = None"
      using assms e by (auto simp: attrs_inv_def split: option.splits)
    with None e show ?thesis
      by (simp add: attributes_of_def)
  next
    case (Some as)
    then obtain h where h: "attr_hash e = Some h"
      using assms e by (auto simp: attrs_inv_def split: option.splits)
    have inv: "h = map_of (map (\<lambda>a. (name_at H a, a)) as)"
      using assms e Some h by (simp_all add: attrs_inv_def)
    have "map attr_name (attributes_of H this) = map (name_at H) as"
      using attrs_inv_names[OF e Some h assms] e Some by (simp add: attributes_of_def)
    then show ?thesis
      using inv h by (simp add: map_of_names_None)
  qed
  show ?thesis
  proof (cases "?h nm")
    case None
    then show ?thesis
      using e names
      by (auto simp: addAttribute_def Let_def hash_lookup_def written_value_def)
  next
    case (Some a)
    then show ?thesis
      using e names
      by (auto simp: addAttribute_def Let_def hash_lookup_def written_value_def split: option.splits)
  qed
qed


lemma map_of_snoc:
  "map_of xs k = None \<Longrightarrow> map_of (xs @ [(k, v)]) = (map_of xs)(k \<mapsto> v)"
  by (auto simp: fun_eq_iff map_add_def split: option.splits)

lemma name_at_elems [simp]: "name_at (H\<lparr>elems := x\<rparr>) = name_at H"
  by (simp add: fun_eq_iff name_at_def)

lemma name_at_proto_value [simp]: "name_at (H\<lparr>proto_value := x\<rparr>) = name_at H"
  by (simp add: fun_eq_iff name_at_def)

lemma attrs_inv_addAttribute:
  assumes "attrs_inv H this"
  shows "attrs_inv (addAttribute ph H this nm v) this"
proof -
  obtain e where e: "elems H this = Some e"
    using assms by (auto simp: attrs_inv_def split: option.splits)
  define val where "val = escapePipe ph (or_empty v)"
  show ?thesis
  proof (cases "attributes e")
    case None
    then have h: "attr_hash e = None"
      using assms e by (auto simp: attrs_inv_def split: option.splits)
    show ?thesis
      using None h e
      by (simp add: addAttribute_def attrs_inv_def hash_lookup_def Let_def name_at_def)
  next
    case (Some as)
    then obtain h where h: "attr_hash e = Some h"
      using assms e by (auto simp: attrs_inv_def split: option.splits)
    have inv: "list_all (\<lambda>a. a < nxt H \<and> attrs H a \<noteq> None) as"
      "distinct (map (name_at H) as)"
      "h = map_of (map (\<lambda>a. (name_at H a, a)) as)"
      using assms e Some h by (simp_all add: attrs_inv_def)
    show ?thesis
    proof (cases "hash_lookup (proto_value H) h nm")
      case (Own a)
      show ?thesis
      proof (cases "attrs H a")
        case None
        then show ?thesis
          using e Some h Own inv
          by (simp add: addAttribute_def attrs_inv_def Let_def)
      next
        case (Some x)
        define H' where "H' = H\<lparr>elems := (elems H)(this \<mapsto> e\<lparr>attributes := Some as, attr_hash := Some h\<rparr>),
                         attrs := (attrs H)(a \<mapsto> merge_value nm val x)\<rparr>"
        have eq: "addAttribute ph H this nm v = H'"
          using e \<open>attributes e = Some as\<close> h Own Some
          by (simp add: addAttribute_def Let_def val_def H'_def)
        have nm: "name_at H' = name_at H"
          using Some by (auto simp: H'_def name_at_def merge_value_name fun_eq_iff)
        have 1: "list_all (\<lambda>a. a < nxt H' \<and> attrs H' a \<noteq> None) as"
          using inv(1) by (simp add: H'_def list_all_iff)
        have "elems H' this = Some (e\<lparr>attributes := Some as, attr_hash := Some h\<rparr>)"
          by (simp add: H'_def)
        then have "attrs_inv H' this"
          using 1 inv(2,3) by (simp add: attrs_inv_def nm)
        then show ?thesis
          by (simp add: eq)
      qed
    next
      case Prototype
      then show ?thesis
        using e Some h inv
        by (simp add: addAttribute_def attrs_inv_def Let_def)
    next
      case Inherited
      then show ?thesis
        using e Some h inv
        by (simp add: addAttribute_def attrs_inv_def Let_def)
    next
      case Absent
      let ?H' = "addAttribute ph H this nm v"
      have H': "?H' = H\<lparr>elems := (elems H)(this \<mapsto>
                              e\<lparr>attributes := Some (as @ [nxt H]),
                                attr_hash := Some (h(nm \<mapsto> nxt H))\<rparr>),
                   attrs := (attrs H)(nxt H \<mapsto> \<lparr>attr_name = nm, attr_value = val\<rparr>),
                   nxt := Suc (nxt H)\<rparr>"
        using e Some h Absent by (simp add: addAttribute_def Let_def val_def)
      have old: "name_at ?H' c = name_at H c" if "c \<in> set as" for c
        using that inv(1) by (auto simp: H' name_at_def list_all_iff)
      have new: "name_at ?H' (nxt H) = nm"
        by (simp add: H' name_at_def)
      have none: "h nm = None"
        using Absent by (simp add: hash_lookup_def split: option.splits if_splits)
      then have fresh: "nm \<notin> set (map (name_at H) as)"
        using inv(3) by (simp add: map_of_names_None)
      have m: "map (name_at ?H') as = map (name_at H) as"
        using old by simp
      have m2: "map (\<lambda>a. (name_at ?H' a, a)) as = map (\<lambda>a. (name_at H a, a)) as"
        using old by simp
      have 1: "list_all (\<lambda>a. a < nxt ?H' \<and> attrs ?H' a \<noteq> None) (as @ [nxt H])"
        using inv(1) by (auto simp: H' list_all_iff)
      have 2: "distinct (map (name_at ?H') (as @ [nxt H]))"
        using inv(2) fresh by (simp add: m new)
      have 3: "h(nm \<mapsto> nxt H) = map_of (map (\<lambda>a. (name_at ?H' a, a)) (as @ [nxt H]))"
      proof -
        have "map_of (map (\<lambda>a. (name_at H a, a)) as) nm = None"
          using none inv(3) by simp
        then have "map_of (map (\<lambda>a. (name_at H a, a)) as @ [(nm, nxt H)]) = h(nm \<mapsto> nxt H)"
          unfolding inv(3) by (rule map_of_snoc)
        then show ?thesis
          by (simp only: map_append list.map m2 new)
      qed
      have "elems ?H' this = Some (e\<lparr>attributes := Some (as @ [nxt H]), attr_hash := Some (h(nm \<mapsto> nxt H))\<rparr>)"
        by (simp add: H')
      then show ?thesis
        using 1 2 3 by (simp add: attrs_inv_def)
    qed
  qed
qed


lemma or_empty_Some: "or_empty (Some s) = s"
  by simp

lemma map_untouched:
  "nm \<notin> set (map attr_name xs) \<Longrightarrow> map (\<lambda>x. if attr_name x = nm then f x else x) xs = xs"
  by (induction xs) auto

lemma attrs_inv_distinct:
  assumes "attrs_inv H this"
  shows "distinct (map attr_name (attributes_of H this))"
proof -
  obtain e where e: "elems H this = Some e"
    using assms by (auto simp: attrs_inv_def split: option.splits)
  show ?thesis
  proof (cases "attributes e")
    case None
    then show ?thesis using e by (simp add: attributes_of_def)
  next
    case (Some as)
    then obtain h where h: "attr_hash e = Some h"
      using assms e by (auto simp: attrs_inv_def split: option.splits)
    have "distinct (map (name_at H) as)"
      using assms e Some h by (simp add: attrs_inv_def)
    then show ?thesis
      using attrs_inv_names[OF e Some h assms] e Some by (simp add: attributes_of_def)
  qed
qed

lemma attrs_inv_setContent:
  "attrs_inv H this \<Longrightarrow> attrs_inv (setContent ph H this d) this"
  by (cases d) (auto simp: attrs_inv_def setContent_def split: option.splits)

lemma attrs_inv_ParsedElement:
  "ParsedElement ph H node syn r opts = (H', this) \<Longrightarrow> attrs_inv H' this"
  apply (simp add: ParsedElement_def Let_def)
  apply (erule conjE)
  apply (drule sym[of _ H'])
  apply (drule sym[of _ this])
  apply simp
  apply (rule attrs_inv_setContent)
  apply (simp add: attrs_inv_def)
  done

lemma attributes_of_ParsedElement:
  "ParsedElement ph H node syn r opts = (H', this) \<Longrightarrow> attributes_of H' this = []"
  by (cases "node_text node") (auto simp: ParsedElement_def Let_def setContent_def attributes_of_def)

lemma class_not_inherited: "\<not> inherited pv ''class''"
  by (simp add: inherited_def object_prototype_keys_def)

lemma fresh_div_eq: "ParsedElement ''{caret}'' empty_heap div_node ''html'' None None = (fresh_div, 0)"
  by (simp add: fresh_div_def ParsedElement_def Let_def empty_heap_def)

lemma fresh_div_inv: "attrs_inv fresh_div 0"
  using fresh_div_eq by (rule attrs_inv_ParsedElement)

lemma fresh_div_attributes: "attributes_of fresh_div 0 = []"
  using fresh_div_eq by (rule attributes_of_ParsedElement)

section \<open>Merging class values\<close>

text \<open>
  C1, as the code has it. On an element without a class attribute,
  \<^verbatim>\<open>addAttribute("class", "a")\<close> and then \<^verbatim>\<open>addAttribute("class", "b")\<close> append one
  attribute \<^verbatim>\<open>class\<close> whose value is \<^verbatim>\<open>"a b"\<close>: the values in the order of the calls,
  one space between them, none in front. A further \<^verbatim>\<open>addAttribute("class", "")\<close> puts
  the separator after the value that is there and the empty value after it: the value
  becomes \<^verbatim>\<open>"a b "\<close>, with one space at its end. After \<^verbatim>\<open>addAttribute("class", "")\<close>
  alone, \<^verbatim>\<open>addAttribute("class", "b")\<close> gives \<^verbatim>\<open>"b"\<close>, without a space in front.
\<close>

theorem class_values_append:
  assumes "attrs_inv H this" "''class'' \<notin> set (map attr_name (attributes_of H this))"
  shows "attributes_of
           (addAttribute ph (addAttribute ph H this ''class'' (Some ''a'')) this ''class'' (Some ''b''))
           this
         = attributes_of H this @ [\<lparr>attr_name = ''class'', attr_value = ''a b''\<rparr>]
       \<and> attributes_of
           (addAttribute ph
              (addAttribute ph (addAttribute ph H this ''class'' (Some ''a'')) this ''class'' (Some ''b''))
              this ''class'' (Some ''''))
           this
         = attributes_of H this @ [\<lparr>attr_name = ''class'', attr_value = ''a b ''\<rparr>]
       \<and> attributes_of
           (addAttribute ph (addAttribute ph H this ''class'' (Some '''')) this ''class'' (Some ''b''))
           this
         = attributes_of H this @ [\<lparr>attr_name = ''class'', attr_value = ''b''\<rparr>]"
proof -
  let ?H1 = "addAttribute ph H this ''class'' (Some ''a'')"
  let ?H2 = "addAttribute ph ?H1 this ''class'' (Some ''b'')"
  have i1: "attrs_inv ?H1 this" using assms(1) by (rule attrs_inv_addAttribute)
  have i2: "attrs_inv ?H2 this" using i1 by (rule attrs_inv_addAttribute)
  have 1: "attributes_of ?H1 this = attributes_of H this @ [\<lparr>attr_name = ''class'', attr_value = ''a''\<rparr>]"
    using assms by (simp add: addAttribute_merge merge_attribute_def class_not_inherited escapePipe_def)
  have 2: "attributes_of ?H2 this = attributes_of H this @ [\<lparr>attr_name = ''class'', attr_value = ''a b''\<rparr>]"
    using assms(2) by (simp add: addAttribute_merge[OF i1] 1 merge_attribute_def merge_value_def escapePipe_def map_untouched)
  have 3: "attributes_of (addAttribute ph ?H2 this ''class'' (Some '''')) this
      = attributes_of H this @ [\<lparr>attr_name = ''class'', attr_value = ''a b ''\<rparr>]"
    using assms(2) by (simp add: addAttribute_merge[OF i2] 2 merge_attribute_def merge_value_def escapePipe_def map_untouched)
  let ?E = "addAttribute ph H this ''class'' (Some '''')"
  have ie: "attrs_inv ?E this" using assms(1) by (rule attrs_inv_addAttribute)
  have 4: "attributes_of ?E this = attributes_of H this @ [\<lparr>attr_name = ''class'', attr_value = ''''\<rparr>]"
    using assms by (simp add: addAttribute_merge merge_attribute_def class_not_inherited escapePipe_def)
  have 5: "attributes_of (addAttribute ph ?E this ''class'' (Some ''b'')) this
      = attributes_of H this @ [\<lparr>attr_name = ''class'', attr_value = ''b''\<rparr>]"
    using assms(2) by (simp add: addAttribute_merge[OF ie] 4 merge_attribute_def merge_value_def escapePipe_def map_untouched)
  show ?thesis using 2 3 5 by simp
qed

text \<open>The theorem at the fresh element \<^verbatim>\<open>div\<close>.\<close>

theorem class_values_append_witness:
  "attrs_inv fresh_div 0 \<and> ''class'' \<notin> set (map attr_name (attributes_of fresh_div 0)) \<and>
   attributes_of
     (addAttribute ''{caret}'' (addAttribute ''{caret}'' fresh_div 0 ''class'' (Some ''a'')) 0 ''class'' (Some ''b'')) 0
     = [\<lparr>attr_name = ''class'', attr_value = ''a b''\<rparr>] \<and>
   attributes_of
     (addAttribute ''{caret}''
        (addAttribute ''{caret}'' (addAttribute ''{caret}'' fresh_div 0 ''class'' (Some ''a'')) 0 ''class'' (Some ''b''))
        0 ''class'' (Some '''')) 0
     = [\<lparr>attr_name = ''class'', attr_value = ''a b ''\<rparr>] \<and>
   attributes_of
     (addAttribute ''{caret}'' (addAttribute ''{caret}'' fresh_div 0 ''class'' (Some '''')) 0 ''class'' (Some ''b'')) 0
     = [\<lparr>attr_name = ''class'', attr_value = ''b''\<rparr>]"
  using class_values_append[OF fresh_div_inv, of "''{caret}''"] fresh_div_inv
  by (simp add: fresh_div_attributes)

text \<open>
  The third call does not leave \<^verbatim>\<open>"a b"\<close>: evaluated on the fresh element, the class
  value after it is \<^verbatim>\<open>"a b "\<close>.
\<close>

theorem class_empty_append_counterexample:
  "map attr_value (attributes_of
     (addAttribute ''{caret}''
        (addAttribute ''{caret}'' (addAttribute ''{caret}'' fresh_div 0 ''class'' (Some ''a'')) 0 ''class'' (Some ''b''))
        0 ''class'' (Some '''')) 0) = [''a b '']
   \<and> map attr_value (attributes_of
     (addAttribute ''{caret}''
        (addAttribute ''{caret}'' (addAttribute ''{caret}'' fresh_div 0 ''class'' (Some ''a'')) 0 ''class'' (Some ''b''))
        0 ''class'' (Some '''')) 0) \<noteq> [''a b'']"
  by (simp add: fresh_div_def ParsedElement_def Let_def empty_heap_def div_node_def setContent_def
        addAttribute_def attributes_of_def hash_lookup_def object_prototype_keys_def merge_value_def escapePipe_def)

section \<open>Replacing the value of another attribute\<close>

lemma merge_value_other: "nm \<noteq> ''class'' \<Longrightarrow> merge_value nm val x = x\<lparr>attr_value := val\<rparr>"
  by (simp add: merge_value_def)

lemma filter_replaced:
  "distinct (map attr_name xs) \<Longrightarrow> nm \<in> set (map attr_name xs) \<Longrightarrow>
   filter (\<lambda>x. attr_name x = nm) (map (\<lambda>x. if attr_name x = nm then x\<lparr>attr_value := val\<rparr> else x) xs)
     = [\<lparr>attr_name = nm, attr_value = val\<rparr>]"
proof (induction xs)
  case Nil
  then show ?case by simp
next
  case (Cons x xs)
  show ?case
  proof (cases "attr_name x = nm")
    case True
    then have "nm \<notin> set (map attr_name xs)"
      using Cons.prems(1) by auto
    then have "filter (\<lambda>x. attr_name x = nm) (map (\<lambda>x. if attr_name x = nm then x\<lparr>attr_value := val\<rparr> else x) xs) = []"
      by (induction xs) auto
    with True show ?thesis by simp
  next
    case False
    with Cons show ?thesis by auto
  qed
qed

lemma id_not_inherited: "\<not> inherited pv ''id''"
  by (simp add: inherited_def object_prototype_keys_def)

text \<open>
  C2. For a name other than \<^verbatim>\<open>class\<close> that the element already has as an attribute,
  \<^verbatim>\<open>addAttribute(name, v)\<close> puts the escaped \<open>v\<close> in place of the value of that attribute
  and changes nothing else; the attributes of that name are still exactly one.
\<close>

theorem other_attribute_replaced:
  assumes "attrs_inv H this" "nm \<noteq> ''class''" "nm \<in> set (map attr_name (attributes_of H this))"
  shows "attributes_of (addAttribute ph H this nm v) this
           = map (\<lambda>x. if attr_name x = nm then x\<lparr>attr_value := escapePipe ph (or_empty v)\<rparr> else x)
               (attributes_of H this)
       \<and> filter (\<lambda>x. attr_name x = nm) (attributes_of (addAttribute ph H this nm v) this)
           = [\<lparr>attr_name = nm, attr_value = escapePipe ph (or_empty v)\<rparr>]
       \<and> length (filter (\<lambda>x. attr_name x = nm) (attributes_of (addAttribute ph H this nm v) this)) = 1"
proof -
  have 1: "attributes_of (addAttribute ph H this nm v) this
           = map (\<lambda>x. if attr_name x = nm then x\<lparr>attr_value := escapePipe ph (or_empty v)\<rparr> else x)
               (attributes_of H this)"
    using assms(2,3) by (simp add: addAttribute_merge[OF assms(1)] merge_attribute_def merge_value_other)
  have 2: "filter (\<lambda>x. attr_name x = nm) (attributes_of (addAttribute ph H this nm v) this)
           = [\<lparr>attr_name = nm, attr_value = escapePipe ph (or_empty v)\<rparr>]"
    unfolding 1 using attrs_inv_distinct[OF assms(1)] assms(3) by (rule filter_replaced)
  show ?thesis using 1 2 by simp
qed

text \<open>
  The theorem at \<^verbatim>\<open>addAttribute("id", "x")\<close> followed by \<^verbatim>\<open>addAttribute("id", "y")\<close> on the
  fresh element: one attribute \<^verbatim>\<open>id\<close>, of value \<^verbatim>\<open>"y"\<close>.
\<close>

theorem other_attribute_replaced_witness:
  "attrs_inv (addAttribute ''{caret}'' fresh_div 0 ''id'' (Some ''x'')) 0 \<and> ''id'' \<noteq> ''class'' \<and>
   ''id'' \<in> set (map attr_name (attributes_of (addAttribute ''{caret}'' fresh_div 0 ''id'' (Some ''x'')) 0)) \<and>
   attributes_of
     (addAttribute ''{caret}'' (addAttribute ''{caret}'' fresh_div 0 ''id'' (Some ''x'')) 0 ''id'' (Some ''y'')) 0
     = [\<lparr>attr_name = ''id'', attr_value = ''y''\<rparr>] \<and>
   length (filter (\<lambda>x. attr_name x = ''id'')
     (attributes_of
       (addAttribute ''{caret}'' (addAttribute ''{caret}'' fresh_div 0 ''id'' (Some ''x'')) 0 ''id'' (Some ''y'')) 0))
     = 1"
proof -
  let ?H1 = "addAttribute ''{caret}'' fresh_div 0 ''id'' (Some ''x'')"
  have i: "attrs_inv ?H1 0"
    using fresh_div_inv by (rule attrs_inv_addAttribute)
  have a: "attributes_of ?H1 0 = [\<lparr>attr_name = ''id'', attr_value = ''x''\<rparr>]"
    by (simp add: addAttribute_merge[OF fresh_div_inv] fresh_div_attributes merge_attribute_def
          id_not_inherited escapePipe_def)
  have n: "''id'' \<in> set (map attr_name (attributes_of ?H1 0))"
    by (simp add: a)
  show ?thesis
    using other_attribute_replaced[OF i _ n, of "''{caret}''" "Some ''y''"] i
    by (simp add: a escapePipe_def)
qed

section \<open>Escaping the value\<close>



section \<open>Sequences of addAttribute calls\<close>

lemma attrs_inv_addAttributes:
  "attrs_inv H this \<Longrightarrow> attrs_inv (addAttributes ph H this xs) this"
  by (induction xs arbitrary: H) (auto simp: attrs_inv_addAttribute)

lemma attributes_of_addAttributes:
  "attrs_inv H this \<Longrightarrow>
   attributes_of (addAttributes ph H this xs) this
     = merge_attributes ph (proto_value H) (attributes_of H this) xs"
  by (induction xs arbitrary: H)
    (auto simp: attrs_inv_addAttribute addAttribute_merge proto_value_addAttribute)

lemma merge_attribute_names:
  "map attr_name (merge_attribute pv nm val ys) =
     (if nm \<in> set (map attr_name ys) \<or> inherited pv nm then map attr_name ys
      else map attr_name ys @ [nm])"
  by (auto simp: merge_attribute_def merge_value_name)

lemma merge_attribute_distinct:
  "distinct (map attr_name ys) \<Longrightarrow> distinct (map attr_name (merge_attribute pv nm val ys))"
  by (simp add: merge_attribute_names)

lemma merge_attribute_take:
  "take (length ys) (map attr_name (merge_attribute pv nm val ys)) = map attr_name ys"
  by (simp add: merge_attribute_names)

lemma merge_attribute_length:
  "length ys \<le> length (merge_attribute pv nm val ys)"
  by (simp add: merge_attribute_def)

lemma proto_inherited: "inherited pv ''__proto__''"
  by (simp add: inherited_def object_prototype_keys_def)

lemma merge_attribute_no_proto:
  "''__proto__'' \<notin> set (map attr_name ys) \<Longrightarrow>
   ''__proto__'' \<notin> set (map attr_name (merge_attribute pv nm val ys))"
  using proto_inherited[of pv] by (auto simp: merge_attribute_names)

lemma merge_attributes_distinct:
  "distinct (map attr_name ys) \<Longrightarrow> distinct (map attr_name (merge_attributes ph pv ys xs))"
  by (induction xs arbitrary: ys pv) (auto simp: merge_attribute_distinct)

lemma merge_attributes_length:
  "length ys \<le> length (merge_attributes ph pv ys xs)"
proof (induction xs arbitrary: ys pv)
  case Nil
  then show ?case by simp
next
  case (Cons x xs)
  obtain nm v where x: "x = (nm, v)" by (cases x)
  let ?val = "escapePipe ph (or_empty (read_value pv v))"
  have "length ys \<le> length (merge_attribute pv nm ?val ys)"
    by (rule merge_attribute_length)
  also have "\<dots> \<le> length (merge_attributes ph (written_value pv nm ?val ys)
                               (merge_attribute pv nm ?val ys) xs)"
    by (rule Cons.IH)
  finally show ?case by (simp add: x)
qed

lemma merge_attributes_take:
  "take (length ys) (map attr_name (merge_attributes ph pv ys xs)) = map attr_name ys"
proof (induction xs arbitrary: ys pv)
  case Nil
  then show ?case by simp
next
  case (Cons x xs)
  obtain nm v where x: "x = (nm, v)" by (cases x)
  let ?val = "escapePipe ph (or_empty (read_value pv v))"
  let ?zs = "merge_attribute pv nm ?val ys"
  let ?pv = "written_value pv nm ?val ys"
  have le: "length ys \<le> length ?zs" by (rule merge_attribute_length)
  have "take (length ys) (map attr_name (merge_attributes ph ?pv ?zs xs))
        = take (length ys) (take (length ?zs) (map attr_name (merge_attributes ph ?pv ?zs xs)))"
    using le by (simp add: min_def)
  also have "\<dots> = take (length ys) (map attr_name ?zs)"
    by (simp only: Cons.IH)
  also have "\<dots> = map attr_name ys"
    by (rule merge_attribute_take)
  finally show ?case by (simp add: x)
qed

lemma values_of_merge_same:
  assumes "distinct (map attr_name ys)" "values_of nm ys = [d]"
  shows "values_of nm (merge_attribute pv nm val ys)
           = [attr_value (merge_value nm val \<lparr>attr_name = nm, attr_value = d\<rparr>)]"
  using assms
proof (induction ys)
  case Nil
  then show ?case by (simp add: values_of_def)
next
  case (Cons y ys)
  show ?case
  proof (cases "attr_name y = nm")
    case True
    then have no: "nm \<notin> set (map attr_name ys)"
      using Cons.prems(1) by auto
    then have f: "filter (\<lambda>x. attr_name x = nm) ys = []"
      by (induction ys) auto
    have y: "y = \<lparr>attr_name = nm, attr_value = d\<rparr>"
      using Cons.prems(2) True f by (cases y) (simp add: values_of_def)
    have "filter (\<lambda>x. attr_name x = nm) (map (\<lambda>x. if attr_name x = nm then merge_value nm val x else x) ys) = []"
      using no by (induction ys) auto
    then show ?thesis
      using True y by (simp add: values_of_def merge_attribute_def merge_value_name)
  next
    case False
    then have v: "values_of nm ys = [d]"
      using Cons.prems(2) by (simp add: values_of_def)
    have "nm \<in> set (map attr_name ys)"
    proof (rule ccontr)
      assume "nm \<notin> set (map attr_name ys)"
      then have "filter (\<lambda>x. attr_name x = nm) ys = []"
        by (induction ys) auto
      with v show False by (simp add: values_of_def)
    qed
    moreover have "values_of nm (merge_attribute pv nm val ys)
           = [attr_value (merge_value nm val \<lparr>attr_name = nm, attr_value = d\<rparr>)]"
      using Cons.IH Cons.prems(1) v by simp
    ultimately show ?thesis
      using False by (simp add: values_of_def merge_attribute_def)
  qed
qed

lemma values_of_merge_other:
  assumes "n \<noteq> nm"
  shows "values_of nm (merge_attribute pv n val ys) = values_of nm ys"
proof -
  have "filter (\<lambda>x. attr_name x = nm) (map (\<lambda>x. if attr_name x = n then merge_value n val x else x) ys)
        = filter (\<lambda>x. attr_name x = nm) ys"
    using assms by (induction ys) (auto simp: merge_value_name)
  then show ?thesis
    using assms by (simp add: values_of_def merge_attribute_def)
qed

lemma values_of_merge_attributes:
  "distinct (map attr_name ys) \<Longrightarrow> ''__proto__'' \<notin> set (map attr_name ys) \<Longrightarrow>
   values_of nm ys = [d] \<Longrightarrow>
   values_of nm (merge_attributes ph pv ys xs) = [merged_value ph pv nm d xs]"
proof (induction xs arbitrary: ys d pv)
  case Nil
  then show ?case by simp
next
  case (Cons x xs)
  obtain n v where x: "x = (n, v)" by (cases x)
  define val where "val = escapePipe ph (or_empty (read_value pv v))"
  define pv' where "pv' = (if n = ''__proto__'' then Some val else pv)"
  define zs where "zs = merge_attribute pv n val ys"
  define d' where "d' = (if n = nm then attr_value (merge_value nm val \<lparr>attr_name = nm, attr_value = d\<rparr>) else d)"
  have wv: "written_value pv n val ys = pv'"
    using Cons.prems(2) by (simp add: written_value_def pv'_def)
  have ma: "merge_attributes ph pv ys (x # xs) = merge_attributes ph pv' zs xs"
    by (simp add: x val_def[symmetric] wv zs_def)
  have mv: "merged_value ph pv nm d (x # xs) = merged_value ph pv' nm d' xs"
    by (simp add: x val_def[symmetric] pv'_def d'_def)
  have dist: "distinct (map attr_name zs)"
    unfolding zs_def using Cons.prems(1) by (rule merge_attribute_distinct)
  have nop: "''__proto__'' \<notin> set (map attr_name zs)"
    unfolding zs_def using Cons.prems(2) by (rule merge_attribute_no_proto)
  have "values_of nm zs = [d']"
  proof (cases "n = nm")
    case True
    have "values_of nm (merge_attribute pv nm val ys)
            = [attr_value (merge_value nm val \<lparr>attr_name = nm, attr_value = d\<rparr>)]"
      using Cons.prems(1,3) by (rule values_of_merge_same)
    then show ?thesis
      using True by (simp add: zs_def d'_def)
  next
    case False
    then show ?thesis
      using Cons.prems(3) by (simp add: zs_def d'_def values_of_merge_other)
  qed
  then have "values_of nm (merge_attributes ph pv' zs xs) = [merged_value ph pv' nm d' xs]"
    using dist nop by (rule Cons.IH[rotated 2])
  then show ?case
    by (simp only: ma mv)
qed

lemma replaceUnescapedSymbol_absent:
  "d \<notin> set s \<Longrightarrow> replaceUnescapedSymbol s d r = s"
  by (induction s d r rule: replaceUnescapedSymbol.induct) auto

lemma escapePipe_token: "CHR ''|'' \<notin> set s \<Longrightarrow> escapePipe ph s = s"
  by (simp add: escapePipe_def replaceUnescapedSymbol_absent)

lemma copyAttributes_node:
  "copyAttributes ph H this (node_attributes node) = addAttributes ph H this (node_attribute_list node)"
  by (simp add: copyAttributes_def node_attribute_list_def split: option.splits)

lemma ParsedElement_allocated:
  "ParsedElement ph H node syn r opts = (H', this) \<Longrightarrow> \<exists>e. elems H' this = Some e"
  by (cases "node_text node") (auto simp: ParsedElement_def Let_def setContent_def)

lemma ParsedElement_proto_value:
  "ParsedElement ph H node syn r opts = (H', this) \<Longrightarrow> proto_value H' = proto_value H"
  by (cases "node_text node") (auto simp: ParsedElement_def Let_def setContent_def split: option.splits)

lemma attrs_inv_field:
  assumes "attrs_inv H this" "elems H this = Some e" "attributes e' = attributes e" "attr_hash e' = attr_hash e"
  shows "attrs_inv (H\<lparr>elems := (elems H)(this \<mapsto> e')\<rparr>) this"
  using assms by (simp add: attrs_inv_def split: option.splits)

lemma attributes_of_field:
  assumes "elems H this = Some e" "attributes e' = attributes e"
  shows "attributes_of (H\<lparr>elems := (elems H)(this \<mapsto> e')\<rparr>) this = attributes_of H this"
  using assms by (simp add: attributes_of_def split: option.splits)

text \<open>The text line 205 escapes: \<^verbatim>\<open>resource.data\<close>, or what the store has for the name.\<close>

lemma parsedSnippet_raises:
  "parsedSnippet ph getSnippet H node syn resource opts = Inl TypeError
     \<longleftrightarrow> (\<exists>d. resource = Given d \<and> res_data d = None)"
proof -
  define r where "r = (case resource of ByName s \<Rightarrow> Some (Snippet s) | Given d \<Rightarrow> Some d | NoResource \<Rightarrow> None)"
  obtain H1 this where P: "ParsedElement ph H node syn r opts = (H1, this)"
    by (cases "ParsedElement ph H node syn r opts")
  show ?thesis
    using P
    by (cases resource)
      (auto simp: parsedSnippet_def Let_def r_def split: option.splits)
qed

lemma parsedSnippet_attributes:
  assumes "CHR ''|'' \<notin> set ph" "parsedSnippet ph getSnippet H node syn resource opts = Inr (H', elem)"
  shows "attributes_of H' elem =
           merge_attributes ph (proto_value H)
             [\<lparr>attr_name = ''id'', attr_value = ph\<rparr>, \<lparr>attr_name = ''class'', attr_value = ph\<rparr>]
             (node_attribute_list node)"
proof -
  define r where "r = (case resource of ByName s \<Rightarrow> Some (Snippet s) | Given d \<Rightarrow> Some d | NoResource \<Rightarrow> None)"
  obtain H1 this where P: "ParsedElement ph H node syn r opts = (H1, this)"
    by (cases "ParsedElement ph H node syn r opts")
  obtain e where e: "elems H1 this = Some e"
    using ParsedElement_allocated[OF P] by blast
  define data where "data = (case r of Some d \<Rightarrow> res_data d | None \<Rightarrow> Some (getSnippet syn (name e)))"
  obtain snip where snip: "data = Some snip"
    using assms(2) P e
    by (cases data)
      (simp_all add: parsedSnippet_def Let_def r_def[symmetric] data_def cong: option.case_cong)
  define H2 where "H2 = H1\<lparr>elems := (elems H1)(this \<mapsto> e\<lparr>snippet_value := Some (escapePipe ph snip)\<rparr>)\<rparr>"
  define H3 where "H3 = addAttribute ph H2 this ''id'' (Some ph)"
  define H4 where "H4 = addAttribute ph H3 this ''class'' (Some ph)"
  have res: "parsedSnippet ph getSnippet H node syn resource opts
               = Inr (copyAttributes ph H4 this (node_attributes node), this)"
    using P e snip
    by (simp add: parsedSnippet_def Let_def r_def[symmetric] data_def[symmetric] H2_def H3_def H4_def
          cong: option.case_cong)
  have p1: "proto_value H1 = proto_value H" using P by (rule ParsedElement_proto_value)
  have i1: "attrs_inv H1 this" using P by (rule attrs_inv_ParsedElement)
  have a1: "attributes_of H1 this = []" using P by (rule attributes_of_ParsedElement)
  have i2: "attrs_inv H2 this" unfolding H2_def using i1 e by (rule attrs_inv_field) simp_all
  have a2: "attributes_of H2 this = []"
    unfolding H2_def using a1 attributes_of_field[OF e, of "e\<lparr>snippet_value := Some (escapePipe ph snip)\<rparr>"]
    by simp
  have p2: "proto_value H2 = proto_value H" by (simp add: H2_def p1)
  have i3: "attrs_inv H3 this" unfolding H3_def using i2 by (rule attrs_inv_addAttribute)
  have a3: "attributes_of H3 this = [\<lparr>attr_name = ''id'', attr_value = ph\<rparr>]"
    unfolding H3_def using assms(1)
    by (simp add: addAttribute_merge[OF i2] a2 merge_attribute_def id_not_inherited escapePipe_token)
  have p3: "proto_value H3 = proto_value H"
    unfolding H3_def by (simp add: proto_value_addAttribute[OF i2] written_value_def p2)
  have i4: "attrs_inv H4 this" unfolding H4_def using i3 by (rule attrs_inv_addAttribute)
  have a4: "attributes_of H4 this = [\<lparr>attr_name = ''id'', attr_value = ph\<rparr>, \<lparr>attr_name = ''class'', attr_value = ph\<rparr>]"
    unfolding H4_def using assms(1)
    by (simp add: addAttribute_merge[OF i3] a3 merge_attribute_def class_not_inherited escapePipe_token)
  have p4: "proto_value H4 = proto_value H"
    unfolding H4_def by (simp add: proto_value_addAttribute[OF i3] written_value_def p3)
  have "Inr (H', elem) = (Inr (addAttributes ph H4 this (node_attribute_list node), this) :: error + _)"
    unfolding assms(2)[symmetric] res by (simp add: copyAttributes_node)
  then have "H' = addAttributes ph H4 this (node_attribute_list node)" "elem = this"
    by blast+
  then show ?thesis
    by (simp add: attributes_of_addAttributes[OF i4] a4 p4)
qed

lemma merged_value_absent:
  "nm \<notin> fst ` set xs \<Longrightarrow> merged_value ph pv nm d xs = d"
  by (induction ph pv nm d xs rule: merged_value.induct) auto

lemma merged_value_append:
  "merged_value ph pv nm d (xs @ ys)
     = merged_value ph (proto_after ph pv xs) nm (merged_value ph pv nm d xs) ys"
  by (induction ph pv nm d xs rule: merged_value.induct) auto

lemma merged_value_single:
  "filter (\<lambda>x. fst x = nm) xs = [(nm, Some s)] \<Longrightarrow>
   merged_value ph pv nm d xs
     = attr_value (merge_value nm (escapePipe ph (or_empty (Some s))) \<lparr>attr_name = nm, attr_value = d\<rparr>)"
proof (induction xs arbitrary: pv)
  case Nil
  then show ?case by simp
next
  case (Cons x xs)
  obtain n v where x: "x = (n, v)" by (cases x)
  show ?case
  proof (cases "n = nm")
    case True
    then have v: "v = Some s" and rest: "filter (\<lambda>x. fst x = nm) xs = []"
      using Cons.prems by (simp_all add: x)
    have "nm \<notin> fst ` set xs"
      using rest by (auto simp: filter_empty_conv)
    then show ?thesis
      using True v by (simp add: x merged_value_absent del: or_empty.simps)
  next
    case False
    then have "filter (\<lambda>x. fst x = nm) xs = [(nm, Some s)]"
      using Cons.prems by (simp add: x)
    then show ?thesis
      using False Cons.IH by (simp add: x)
  qed
qed









lemma parsedSnippet_returns:
  "has_data resource \<Longrightarrow> \<exists>H' elem. parsedSnippet ph getSnippet H node syn resource opts = Inr (H', elem)"
proof -
  assume hd: "has_data resource"
  have "parsedSnippet ph getSnippet H node syn resource opts \<noteq> Inl TypeError"
    using hd by (auto simp: parsedSnippet_raises)
  then show ?thesis
    by (cases "parsedSnippet ph getSnippet H node syn resource opts") (auto intro: error.exhaust)
qed

section \<open>The snippet factory\<close>

text \<open>
  C3. For a placeholder token that is not empty and holds no pipe, and a resource that
  gives a snippet text, the snippet factory returns an element, and it sets \<^verbatim>\<open>id\<close> and
  \<^verbatim>\<open>class\<close> to the token before it copies the attributes of the node: the attributes of
  the element are those two, in this order, merged with the attributes of the node. So a
  node whose one class entry is \<^verbatim>\<open>class="foo"\<close> ends with the class value token, space,
  \<^verbatim>\<open>foo\<close>; the last \<^verbatim>\<open>id\<close> entry of a node replaces the token, by its escaped value or,
  when it has no value of its own, by what \<^verbatim>\<open>Object.prototype.value\<close> is by then; and
  without an \<^verbatim>\<open>id\<close> entry the value of \<^verbatim>\<open>id\<close> stays the token.
\<close>

theorem snippet_placeholders_first:
  assumes "ph \<noteq> []" "CHR ''|'' \<notin> set ph" "has_data resource"
  shows "\<exists>H' elem. parsedSnippet ph getSnippet H node syn resource opts = Inr (H', elem)
       \<and> attributes_of H' elem =
           merge_attributes ph (proto_value H)
             [\<lparr>attr_name = ''id'', attr_value = ph\<rparr>, \<lparr>attr_name = ''class'', attr_value = ph\<rparr>]
             (node_attribute_list node)
       \<and> (filter (\<lambda>x. fst x = ''class'') (node_attribute_list node) = [(''class'', Some ''foo'')] \<longrightarrow>
            values_of ''class'' (attributes_of H' elem) = [ph @ '' foo''])
       \<and> (\<forall>xs s ys. node_attribute_list node = xs @ (''id'', Some s) # ys \<and> ''id'' \<notin> fst ` set ys \<longrightarrow>
            values_of ''id'' (attributes_of H' elem) = [escapePipe ph s])
       \<and> (\<forall>xs ys. node_attribute_list node = xs @ (''id'', None) # ys \<and> ''id'' \<notin> fst ` set ys \<longrightarrow>
            values_of ''id'' (attributes_of H' elem)
              = [escapePipe ph (or_empty (proto_after ph (proto_value H) xs))])
       \<and> (''id'' \<notin> fst ` set (node_attribute_list node) \<longrightarrow>
            values_of ''id'' (attributes_of H' elem) = [ph])"
proof -
  obtain H' elem where r: "parsedSnippet ph getSnippet H node syn resource opts = Inr (H', elem)"
    using parsedSnippet_returns[OF assms(3)] by blast
  let ?init = "[\<lparr>attr_name = ''id'', attr_value = ph\<rparr>, \<lparr>attr_name = ''class'', attr_value = ph\<rparr>]"
  let ?xs = "node_attribute_list node"
  let ?pv = "proto_value H"
  have 1: "attributes_of H' elem = merge_attributes ph ?pv ?init ?xs"
    using assms(2) r by (rule parsedSnippet_attributes)
  have d: "distinct (map attr_name ?init)" "''__proto__'' \<notin> set (map attr_name ?init)"
    by simp_all
  have "values_of ''id'' ?init = [ph]" by (simp add: values_of_def)
  then have idv: "values_of ''id'' (attributes_of H' elem) = [merged_value ph ?pv ''id'' ph ?xs]"
    unfolding 1 using d values_of_merge_attributes by blast
  have "values_of ''class'' ?init = [ph]" by (simp add: values_of_def)
  then have clv: "values_of ''class'' (attributes_of H' elem) = [merged_value ph ?pv ''class'' ph ?xs]"
    unfolding 1 using d values_of_merge_attributes by blast
  have 2: "values_of ''class'' (attributes_of H' elem) = [ph @ '' foo'']"
    if f: "filter (\<lambda>x. fst x = ''class'') ?xs = [(''class'', Some ''foo'')]"
  proof -
    have "merged_value ph ?pv ''class'' ph ?xs
            = attr_value (merge_value ''class'' (escapePipe ph (or_empty (Some ''foo'')))
                            \<lparr>attr_name = ''class'', attr_value = ph\<rparr>)"
      using f by (rule merged_value_single)
    also have "\<dots> = ph @ '' foo''"
      using assms(1) by (simp add: merge_value_def escapePipe_def)
    finally show ?thesis by (simp add: clv)
  qed
  have 3: "values_of ''id'' (attributes_of H' elem)
             = [escapePipe ph (or_empty (read_value (proto_after ph ?pv xs) v))]"
    if n: "?xs = xs @ (''id'', v) # ys" and a: "''id'' \<notin> fst ` set ys" for xs v ys
  proof -
    have "merged_value ph ?pv ''id'' ph ?xs
            = merged_value ph (proto_after ph ?pv xs) ''id'' (merged_value ph ?pv ''id'' ph xs)
                ((''id'', v) # ys)"
      unfolding n by (rule merged_value_append)
    also have "\<dots> = escapePipe ph (or_empty (read_value (proto_after ph ?pv xs) v))"
      using a by (simp add: merge_value_def merged_value_absent del: or_empty.simps)
    finally show ?thesis by (simp add: idv)
  qed
  have 4: "values_of ''id'' (attributes_of H' elem) = [ph]" if "''id'' \<notin> fst ` set ?xs"
    using that by (simp add: idv merged_value_absent)
  have ids: "\<forall>xs s ys. ?xs = xs @ (''id'', Some s) # ys \<and> ''id'' \<notin> fst ` set ys \<longrightarrow>
            values_of ''id'' (attributes_of H' elem) = [escapePipe ph s]"
    using 3 by fastforce
  have idn: "\<forall>xs ys. ?xs = xs @ (''id'', None) # ys \<and> ''id'' \<notin> fst ` set ys \<longrightarrow>
            values_of ''id'' (attributes_of H' elem)
              = [escapePipe ph (or_empty (proto_after ph ?pv xs))]"
    using 3 by fastforce
  show ?thesis
    using r 1 2 ids idn 4 by blast
qed

text \<open>
  The theorem in a fresh engine: at a node with \<^verbatim>\<open>class="foo"\<close>, at a node with
  \<^verbatim>\<open>id="main"\<close> as well, at a node whose \<^verbatim>\<open>__proto__="x"\<close> reaches the \<^verbatim>\<open>id\<close> without value
  after it, and at a node whose \<^verbatim>\<open>__defineGetter__\<close> adds no attribute.
\<close>

lemma returned_attributes_Inr:
  "r = Inr (H, elem) \<Longrightarrow> attributes_of H elem = xs \<Longrightarrow> returned_attributes r = Inr xs"
  by (simp add: returned_attributes_def)

lemma example_attributes:
  assumes "merge_attributes ''{caret}'' None
             [\<lparr>attr_name = ''id'', attr_value = ''{caret}''\<rparr>,
              \<lparr>attr_name = ''class'', attr_value = ''{caret}''\<rparr>]
             (node_attribute_list node) = xs"
    and "\<exists>H' elem. example_snippet node = Inr (H', elem) \<and>
           attributes_of H' elem =
             merge_attributes ''{caret}'' (proto_value (empty_heap :: unit heap))
               [\<lparr>attr_name = ''id'', attr_value = ''{caret}''\<rparr>,
                \<lparr>attr_name = ''class'', attr_value = ''{caret}''\<rparr>]
               (node_attribute_list node)"
  shows "returned_attributes (example_snippet node) = Inr xs"
proof -
  obtain H' elem where r: "example_snippet node = Inr (H', elem)"
    and a: "attributes_of H' elem =
             merge_attributes ''{caret}'' (proto_value (empty_heap :: unit heap))
               [\<lparr>attr_name = ''id'', attr_value = ''{caret}''\<rparr>,
                \<lparr>attr_name = ''class'', attr_value = ''{caret}''\<rparr>]
               (node_attribute_list node)"
    using assms(2) by blast
  have "attributes_of H' elem = xs"
    using a assms(1) by (simp add: empty_heap_def)
  with r show ?thesis
    by (rule returned_attributes_Inr)
qed

theorem snippet_placeholders_first_witness:
  "''{caret}'' \<noteq> [] \<and> CHR ''|'' \<notin> set ''{caret}'' \<and> has_data (ByName ''<p>|</p>'') \<and>
   filter (\<lambda>x. fst x = ''class'') (node_attribute_list foo_node) = [(''class'', Some ''foo'')] \<and>
   ''id'' \<notin> fst ` set (node_attribute_list foo_node) \<and>
   returned_attributes (example_snippet foo_node)
     = Inr [\<lparr>attr_name = ''id'', attr_value = ''{caret}''\<rparr>,
            \<lparr>attr_name = ''class'', attr_value = ''{caret} foo''\<rparr>] \<and>
   node_attribute_list main_node = [] @ (''id'', Some ''main'') # [(''class'', Some ''foo'')] \<and>
   returned_attributes (example_snippet main_node)
     = Inr [\<lparr>attr_name = ''id'', attr_value = ''main''\<rparr>,
            \<lparr>attr_name = ''class'', attr_value = ''{caret} foo''\<rparr>] \<and>
   node_attribute_list proto_node = [(''__proto__'', Some ''x'')] @ (''id'', None) # [] \<and>
   returned_attributes (example_snippet proto_node)
     = Inr [\<lparr>attr_name = ''id'', attr_value = ''x''\<rparr>,
            \<lparr>attr_name = ''class'', attr_value = ''{caret}''\<rparr>] \<and>
   returned_attributes (example_snippet getter_node)
     = Inr [\<lparr>attr_name = ''id'', attr_value = ''{caret}''\<rparr>,
            \<lparr>attr_name = ''class'', attr_value = ''{caret}''\<rparr>]"
proof -
  have p: "''{caret}'' \<noteq> []" "CHR ''|'' \<notin> set ''{caret}''" "has_data (ByName ''<p>|</p>'')"
    by simp_all
  have nf: "node_attribute_list foo_node = [(''class'', Some ''foo'')]"
    by (simp add: node_attribute_list_def foo_node_def div_node_def)
  have nm: "node_attribute_list main_node = [(''id'', Some ''main''), (''class'', Some ''foo'')]"
    by (simp add: node_attribute_list_def main_node_def div_node_def)
  have np: "node_attribute_list proto_node = [(''__proto__'', Some ''x''), (''id'', None)]"
    by (simp add: node_attribute_list_def proto_node_def div_node_def)
  have ng: "node_attribute_list getter_node = [(''__defineGetter__'', Some ''g'')]"
    by (simp add: node_attribute_list_def getter_node_def div_node_def)
  note T = snippet_placeholders_first[OF p, of "\<lambda>syn nm. []" "empty_heap :: unit heap" _ "''html''" None,
      folded example_snippet_def]
  have 1: "returned_attributes (example_snippet foo_node)
     = Inr [\<lparr>attr_name = ''id'', attr_value = ''{caret}''\<rparr>,
            \<lparr>attr_name = ''class'', attr_value = ''{caret} foo''\<rparr>]"
    by (rule example_attributes[OF _ exE[OF T[of foo_node]]])
      (auto simp: nf merge_attribute_def merge_value_def escapePipe_def)
  have 2: "returned_attributes (example_snippet main_node)
     = Inr [\<lparr>attr_name = ''id'', attr_value = ''main''\<rparr>,
            \<lparr>attr_name = ''class'', attr_value = ''{caret} foo''\<rparr>]"
    by (rule example_attributes[OF _ exE[OF T[of main_node]]])
      (auto simp: nm merge_attribute_def merge_value_def escapePipe_def)
  have 3: "returned_attributes (example_snippet proto_node)
     = Inr [\<lparr>attr_name = ''id'', attr_value = ''x''\<rparr>,
            \<lparr>attr_name = ''class'', attr_value = ''{caret}''\<rparr>]"
    by (rule example_attributes[OF _ exE[OF T[of proto_node]]])
      (auto simp: np merge_attribute_def merge_value_def escapePipe_def written_value_def
         inherited_def object_prototype_keys_def)
  have 4: "returned_attributes (example_snippet getter_node)
     = Inr [\<lparr>attr_name = ''id'', attr_value = ''{caret}''\<rparr>,
            \<lparr>attr_name = ''class'', attr_value = ''{caret}''\<rparr>]"
    by (rule example_attributes[OF _ exE[OF T[of getter_node]]])
      (auto simp: ng merge_attribute_def merge_value_def escapePipe_def written_value_def
         inherited_def object_prototype_keys_def)
  show ?thesis
    using p 1 2 3 4 by (simp add: nf nm np)
qed

section \<open>A name that Object.prototype has\<close>

text \<open>
  For a name the attributes do not have, \<^verbatim>\<open>addAttribute\<close> appends one entry, unless the
  name is inherited; a sequence of calls keeps the entries that were there in their
  places, and the names stay distinct.
\<close>

lemma addAttributes_positions:
  assumes "attrs_inv H this"
  shows "take (length (attributes_of H this)) (map attr_name (attributes_of (addAttributes ph H this xs) this))
           = map attr_name (attributes_of H this)
       \<and> distinct (map attr_name (attributes_of (addAttributes ph H this xs) this))"
  using assms
  by (simp add: attributes_of_addAttributes merge_attributes_take merge_attributes_distinct
        attrs_inv_distinct)

text \<open>
  C10 at \<^verbatim>\<open>addAttribute("constructor", "x")\<close> on the fresh element. The name is new, and
  yet no entry is appended: the hash of line 65 is \<^verbatim>\<open>{}\<close>, the test
  \<^verbatim>\<open>name in this._attr_hash\<close> of line 74 holds for the inherited \<^verbatim>\<open>constructor\<close>, the
  branch of line 75 ("attribute already exists") runs, and \<^verbatim>\<open>attributes\<close> stays empty.
\<close>

theorem inherited_name_not_appended:
  "attributes_of (addAttribute ''{caret}'' fresh_div 0 ''constructor'' (Some ''x'')) 0 = []
   \<and> attributes_of (addAttribute ''{caret}'' fresh_div 0 ''constructor'' (Some ''x'')) 0
       \<noteq> attributes_of fresh_div 0 @ [\<lparr>attr_name = ''constructor'', attr_value = ''x''\<rparr>]"
  by (simp add: fresh_div_def ParsedElement_def Let_def empty_heap_def div_node_def setContent_def
        addAttribute_def attributes_of_def hash_lookup_def object_prototype_keys_def)

section \<open>Count and repetition\<close>

lemma count_kept_refl: "count_kept H H"
  by (simp add: count_kept_def)

lemma count_kept_trans: "count_kept H H' \<Longrightarrow> count_kept H' H'' \<Longrightarrow> count_kept H H''"
  unfolding count_kept_def by fastforce

lemma count_kept_addChild: "count_kept H (addChild H this elem)"
  by (auto simp: count_kept_def addChild_def Let_def split: option.splits)

lemma count_kept_addAttribute: "count_kept H (addAttribute ph H this nm v)"
  by (auto simp: count_kept_def addAttribute_def Let_def split: option.splits hash_entry.splits)

lemma count_kept_addAttributes: "count_kept H (addAttributes ph H this xs)"
proof (induction xs arbitrary: H)
  case Nil
  then show ?case by (simp add: count_kept_refl)
next
  case (Cons x xs)
  obtain nm v where x: "x = (nm, v)" by (cases x)
  let ?H1 = "addAttribute ph H this nm (read_value (proto_value H) v)"
  have "count_kept H ?H1"
    by (rule count_kept_addAttribute)
  moreover have "count_kept ?H1 (addAttributes ph ?H1 this xs)"
    by (rule Cons.IH)
  ultimately show ?case
    unfolding x by (simp add: count_kept_trans)
qed

lemma count_kept_copyAttributes: "count_kept H (copyAttributes ph H this src)"
  by (simp add: copyAttributes_def count_kept_refl count_kept_addAttributes split: option.splits)

lemma count_kept_setContent: "count_kept H (setContent ph H this d)"
  by (cases d) (auto simp: count_kept_def setContent_def split: option.splits)

lemma count_kept_setPasteContent: "count_kept H (setPasteContent esc H this v)"
  by (auto simp: count_kept_def setPasteContent_def split: option.splits)

lemma count_kept_operation: "count_kept H (apply_operation ph esc H x)"
  by (cases x)
    (simp_all add: count_kept_addChild count_kept_addAttribute count_kept_copyAttributes
       count_kept_setContent count_kept_setPasteContent)

lemma count_kept_operations: "count_kept H (apply_operations ph esc H xs)"
proof (induction xs arbitrary: H)
  case Nil
  then show ?case by (simp add: count_kept_refl)
next
  case (Cons x xs)
  have "count_kept H (apply_operation ph esc H x)"
    by (rule count_kept_operation)
  moreover have "count_kept (apply_operation ph esc H x) (apply_operations ph esc (apply_operation ph esc H x) xs)"
    by (rule Cons.IH)
  ultimately show ?case
    by (simp add: count_kept_trans)
qed

lemma ParsedElement_count:
  assumes "ParsedElement ph H node syn r opts = (H0, this)"
  shows "\<exists>e. elems H0 this = Some e \<and>
           count e = (case node_count node of None \<Rightarrow> 1 | Some n \<Rightarrow> if n \<noteq> 0 then n else 1) \<and>
           is_repeating e = (case node_count node of None \<Rightarrow> False | Some n \<Rightarrow> n > 1)"
  using assms
  by (cases "node_text node") (auto simp: ParsedElement_def Let_def setContent_def)

text \<open>
  C8. An element constructed from a node whose count is absent or an integer that is at
  least 1 has a \<^verbatim>\<open>count\<close> of at least 1 and is repeating exactly when its count is above
  1. This holds at construction and after any sequence of \<^verbatim>\<open>addChild\<close>,
  \<^verbatim>\<open>addAttribute\<close>, \<^verbatim>\<open>copyAttributes\<close>, \<^verbatim>\<open>setContent\<close> and \<^verbatim>\<open>setPasteContent\<close> calls on any
  elements, none of which changes the \<^verbatim>\<open>count\<close> or \<^verbatim>\<open>is_repeating\<close> of any element.
\<close>

theorem count_invariant_kept:
  assumes "node_count node = None \<or> (\<exists>n. node_count node = Some n \<and> 1 \<le> n)"
    "ParsedElement ph H node syn r opts = (H0, this)"
  shows "(\<exists>e. elems H0 this = Some e \<and> 1 \<le> count e \<and> (is_repeating e \<longleftrightarrow> 1 < count e))
       \<and> (\<exists>e. elems (apply_operations ph esc H0 ops) this = Some e \<and> 1 \<le> count e \<and>
              (is_repeating e \<longleftrightarrow> 1 < count e))
       \<and> count_kept H0 (apply_operations ph esc H0 ops)"
proof -
  obtain e where e: "elems H0 this = Some e"
    "count e = (case node_count node of None \<Rightarrow> 1 | Some n \<Rightarrow> if n \<noteq> 0 then n else 1)"
    "is_repeating e = (case node_count node of None \<Rightarrow> False | Some n \<Rightarrow> n > 1)"
    using ParsedElement_count[OF assms(2)] by blast
  have ok: "1 \<le> count e \<and> (is_repeating e \<longleftrightarrow> 1 < count e)"
    using assms(1) e(2,3) by auto
  have k: "count_kept H0 (apply_operations ph esc H0 ops)"
    by (rule count_kept_operations)
  then obtain e' where "elems (apply_operations ph esc H0 ops) this = Some e'"
    "count e' = count e" "is_repeating e' = is_repeating e"
    using e(1) unfolding count_kept_def by blast
  then show ?thesis
    using e(1) ok k by simp
qed

text \<open>The theorem at a node of count 3, built beside the fresh \<^verbatim>\<open>div\<close>, and five calls.\<close>

theorem count_invariant_kept_witness:
  "(node_count triple_node = None \<or> (\<exists>n. node_count triple_node = Some n \<and> 1 \<le> n)) \<and>
   (\<exists>e. elems (apply_operations ''{caret}'' id
              (fst (ParsedElement ''{caret}'' fresh_div triple_node ''html'' None None))
              [AddChild 0 1, AddAttribute 1 ''class'' (Some ''a''), CopyAttributes 1 (Some [(''id'', Some ''x'')]),
               SetContent 1 (Str ''text''), SetPasteContent 1 ''pasted''])
           (snd (ParsedElement ''{caret}'' fresh_div triple_node ''html'' None None)) = Some e \<and>
        1 \<le> count e \<and> (is_repeating e \<longleftrightarrow> 1 < count e))"
proof -
  have h: "node_count triple_node = None \<or> (\<exists>n. node_count triple_node = Some n \<and> 1 \<le> n)"
    by (simp add: triple_node_def)
  have p: "ParsedElement ''{caret}'' fresh_div triple_node ''html'' None None
      = (fst (ParsedElement ''{caret}'' fresh_div triple_node ''html'' None None),
         snd (ParsedElement ''{caret}'' fresh_div triple_node ''html'' None None))"
    by simp
  show ?thesis
    using count_invariant_kept[OF h p] h by blast
qed

section \<open>Setting and reading content\<close>

text \<open>
  C9. \<^verbatim>\<open>setContent\<close> with data that is neither a string nor a function changes nothing.
  So an element constructed from a node with such a text has the initial content \<^verbatim>\<open>''\<close>,
  and after \<^verbatim>\<open>setContent("x")\<close> a call with such data leaves \<^verbatim>\<open>getContent()\<close> the escaped
  \<^verbatim>\<open>"x"\<close>.
\<close>

theorem other_data_ignored:
  assumes "\<not> isString d" "\<not> isFunction d"
  shows "setContent ph H this d = H
       \<and> (\<forall>H1 node syn r opts H0 a e. node_text node = d \<and> ParsedElement ph H1 node syn r opts = (H0, a) \<and>
             elems H0 a = Some e \<longrightarrow> content e = Str [])
       \<and> (\<forall>e. elems H this = Some e \<longrightarrow>
             getContent call (setContent ph (setContent ph H this (Str ''x'')) this d) this
               = Str (escapePipe ph ''x''))"
proof -
  have 1: "setContent ph H' a d = H'" for H' :: "'a heap" and a
    using assms by (cases d) (simp_all add: setContent_def split: option.splits)
  have 2: "content e = Str []"
    if "node_text node = d" "ParsedElement ph H1 node syn r opts = (H0, a)" "elems H0 a = Some e"
    for H1 node syn r opts H0 a e
    using that by (auto simp: ParsedElement_def Let_def 1)
  have 3: "getContent call (setContent ph (setContent ph H this (Str ''x'')) this d) this
               = Str (escapePipe ph ''x'')" if "elems H this = Some e" for e
    using that by (simp add: 1) (simp add: setContent_def getContent_def escapePipe_def)
  show ?thesis
    using 1 2 3 by blast
qed

text \<open>The theorem at \<^verbatim>\<open>undefined\<close> and the fresh \<^verbatim>\<open>div\<close>.\<close>

theorem other_data_ignored_witness:
  "\<not> isString (Undefined :: unit jsval) \<and> \<not> isFunction (Undefined :: unit jsval) \<and>
   setContent ''{caret}'' fresh_div 0 Undefined = fresh_div \<and>
   node_text (div_node :: unit tree_node) = Undefined \<and>
   ParsedElement ''{caret}'' empty_heap div_node ''html'' None None = (fresh_div, 0) \<and>
   (\<exists>e. elems fresh_div 0 = Some e \<and> content e = Str []) \<and>
   getContent children_length (setContent ''{caret}'' (setContent ''{caret}'' fresh_div 0 (Str ''x'')) 0 Undefined) 0
     = Str ''x''"
proof -
  have s: "\<not> isString (Undefined :: unit jsval)" "\<not> isFunction (Undefined :: unit jsval)"
    by simp_all
  have n: "node_text (div_node :: unit tree_node) = Undefined"
    by (simp add: div_node_def)
  obtain e where e: "elems fresh_div 0 = Some e"
    using ParsedElement_allocated[OF fresh_div_eq] by blast
  note C = other_data_ignored[OF s, of "''{caret}''" fresh_div 0 children_length]
  have 1: "setContent ''{caret}'' fresh_div 0 Undefined = fresh_div"
    using C by blast
  have 2: "content e = Str []"
    using C[THEN conjunct2, THEN conjunct1] n fresh_div_eq e by blast
  have 3: "getContent children_length (setContent ''{caret}'' (setContent ''{caret}'' fresh_div 0 (Str ''x'')) 0 Undefined) 0
     = Str (escapePipe ''{caret}'' ''x'')"
    using C e by blast
  show ?thesis
    using s n fresh_div_eq e 1 2 3 by (simp add: escapePipe_def)
qed

lemma children_of_setContent: "children_of (setContent ph H this d) a = children_of H a"
  by (cases d) (auto simp: children_of_def setContent_def split: option.splits)

lemma children_of_addChild:
  "elems H this = Some e \<Longrightarrow> elems H c = Some ce \<Longrightarrow>
   children_of (addChild H this c) this = children e @ [c]"
  by (auto simp: children_of_def addChild_def Let_def)

lemma content_setContent_Func:
  "elems H this = Some e \<Longrightarrow>
   elems (setContent ph H this (Func f)) this = Some (e\<lparr>content := Func f\<rparr>)"
  by (simp add: setContent_def)

lemma getContent_Func:
  "elems H this = Some e \<Longrightarrow> content e = Func f \<Longrightarrow> getContent call H this = call f H this"
  by (simp add: getContent_def)

lemma content_addChild:
  "elems H this = Some e \<Longrightarrow> elems H c = Some ce \<Longrightarrow>
   \<exists>e'. elems (addChild H this c) this = Some e' \<and> content e' = content e"
  by (auto simp: addChild_def Let_def)

text \<open>
  C6. With a function as content, \<^verbatim>\<open>getContent()\<close> is what the function returns for the
  element in the store as it is at the call. So for a producer that returns
  \<^verbatim>\<open>self.children.length\<close>, \<^verbatim>\<open>getContent()\<close> is the number of children before an
  \<^verbatim>\<open>addChild\<close> and one more after it: 0 and 1 for an element without children. A string
  is returned as it is stored, and content that is falsy and no function gives \<^verbatim>\<open>''\<close>.
\<close>

theorem producer_called_anew:
  "(\<forall>e f. elems H this = Some e \<and> content e = Func f \<longrightarrow> getContent call H this = call f H this)
   \<and> (\<forall>e f c ce. elems H this = Some e \<and> elems H c = Some ce \<and>
         (\<forall>H' a. call f H' a = Num (int (length (children_of H' a)))) \<longrightarrow>
         getContent call (setContent ph H this (Func f)) this = Num (int (length (children e))) \<and>
         getContent call (addChild (setContent ph H this (Func f)) this c) this
           = Num (int (length (children e)) + 1))
   \<and> (\<forall>e s. elems H this = Some e \<and> content e = Str s \<longrightarrow> getContent call H this = Str s)
   \<and> (\<forall>e. elems H this = Some e \<and> \<not> isFunction (content e) \<and> \<not> truthy (content e) \<longrightarrow>
         getContent call H this = Str [])"
proof -
  have 1: "getContent call H this = call f H this" if "elems H this = Some e" "content e = Func f" for e f
    using that by (rule getContent_Func)
  have 2: "getContent call (setContent ph H this (Func f)) this = Num (int (length (children e))) \<and>
         getContent call (addChild (setContent ph H this (Func f)) this c) this
           = Num (int (length (children e)) + 1)"
    if e: "elems H this = Some e" and c: "elems H c = Some ce"
      and f: "\<forall>H' a. call f H' a = Num (int (length (children_of H' a)))" for e f c ce
  proof -
    let ?H1 = "setContent ph H this (Func f)"
    have e1: "elems ?H1 this = Some (e\<lparr>content := Func f\<rparr>)"
      using e by (rule content_setContent_Func)
    obtain ce1 where c1: "elems ?H1 c = Some ce1"
      using e c by (cases "c = this") (auto simp: setContent_def)
    have "children_of ?H1 this = children e"
      using e by (simp add: children_of_setContent) (simp add: children_of_def)
    then have a: "getContent call ?H1 this = Num (int (length (children e)))"
      using getContent_Func[OF e1, of f call] f by simp
    obtain e2 where e2: "elems (addChild ?H1 this c) this = Some e2" "content e2 = Func f"
      using content_addChild[OF e1 c1] by auto
    have "children_of (addChild ?H1 this c) this = children e @ [c]"
      using children_of_addChild[OF e1 c1] by simp
    then have b: "getContent call (addChild ?H1 this c) this = Num (int (length (children e)) + 1)"
      using getContent_Func[OF e2, of call] f by simp
    show ?thesis using a b by simp
  qed
  have 3: "getContent call H this = Str s" if "elems H this = Some e" "content e = Str s" for e s
    using that by (simp add: getContent_def)
  have 4: "getContent call H this = Str []"
    if "elems H this = Some e" "\<not> isFunction (content e)" "\<not> truthy (content e)" for e
    using that by (cases "content e") (simp_all add: getContent_def)
  show ?thesis
    using 1 2 3 4 by blast
qed

lemma two_divs_elems:
  "\<exists>e ce. elems two_divs 0 = Some e \<and> children e = [] \<and> content e = Str [] \<and> elems two_divs 1 = Some ce"
  by (simp add: two_divs_def fresh_div_def ParsedElement_def Let_def empty_heap_def div_node_def setContent_def)

text \<open>The theorem at the store of two fresh elements: 0 and then 1.\<close>

theorem producer_called_anew_witness:
  "(\<exists>e ce. elems two_divs 0 = Some e \<and> children e = [] \<and> content e = Str [] \<and> elems two_divs 1 = Some ce) \<and>
   (\<forall>H' a. children_length () H' a = Num (int (length (children_of H' a)))) \<and>
   getContent children_length (setContent ''{caret}'' two_divs 0 (Func ())) 0 = Num 0 \<and>
   getContent children_length (addChild (setContent ''{caret}'' two_divs 0 (Func ())) 0 1) 0 = Num 1 \<and>
   getContent children_length two_divs 0 = Str []"
proof -
  obtain e ce where e: "elems two_divs 0 = Some e" "children e = []" "content e = Str []"
    and c: "elems two_divs 1 = Some ce"
    using two_divs_elems by blast
  have f: "\<forall>H' a. children_length () H' a = Num (int (length (children_of H' a)))"
    by (simp add: children_length_def)
  note C = producer_called_anew[of two_divs 0 children_length "''{caret}''"]
  have "getContent children_length (setContent ''{caret}'' two_divs 0 (Func ())) 0 = Num (int (length (children e))) \<and>
        getContent children_length (addChild (setContent ''{caret}'' two_divs 0 (Func ())) 0 1) 0
           = Num (int (length (children e)) + 1)"
    using C[THEN conjunct2, THEN conjunct1] e(1) c f by blast
  moreover have "getContent children_length two_divs 0 = Str []"
    using C[THEN conjunct2, THEN conjunct2, THEN conjunct1] e(1,3) by blast
  ultimately show ?thesis
    using two_divs_elems f e(2) by simp
qed

section \<open>The deepest child\<close>

lemma deepest_loop_chain:
  "last_chain H a bs \<Longrightarrow> deepest_loop H a = Some (Inr (last (a # bs)))"
proof (induction bs arbitrary: a)
  case Nil
  then show ?case
    by (subst deepest_loop.simps) (simp split: option.splits)
next
  case (Cons b bs)
  then obtain e where e: "elems H a = Some e" "children e \<noteq> []" "last (children e) = b" "last_chain H b bs"
    by (auto split: option.splits)
  have "deepest_loop H a = deepest_loop H b"
    using e(1,2,3) by (subst deepest_loop.simps) simp
  then show ?case
    using Cons.IH[OF e(4)] by simp
qed

lemma allocated_addChild:
  "elems (addChild H this c) a = None \<longleftrightarrow> elems H a = None"
  by (auto simp: addChild_def Let_def split: option.splits if_splits)

lemma children_addChild:
  assumes "elems H this \<noteq> None" "elems H c \<noteq> None"
  shows "children_of (addChild H this c) a
           = (if a = this then children_of H this @ [c] else children_of H a)"
  using assms by (auto simp: children_of_def addChild_def Let_def split: option.splits)

lemma last_chain_children_of:
  "last_chain H a bs =
     (elems H a \<noteq> None \<and>
      (case bs of [] \<Rightarrow> children_of H a = []
       | b # bs' \<Rightarrow> children_of H a \<noteq> [] \<and> last (children_of H a) = b \<and> last_chain H b bs'))"
  by (cases bs) (auto simp: children_of_def split: option.splits)

text \<open>
  C7. \<^verbatim>\<open>findDeepestChild()\<close> returns \<^verbatim>\<open>null\<close> on an element without children. Where going
  to the last child again and again ends at an element without children, it returns
  that element. So for four distinct elements without children, after
  \<^verbatim>\<open>root.addChild(A)\<close>, \<^verbatim>\<open>A.addChild(B)\<close> and \<^verbatim>\<open>B.addChild(C)\<close> the call on \<open>root\<close>
  returns \<open>C\<close>.
\<close>

theorem deepest_child_last:
  "(\<forall>e. elems H this = Some e \<and> children e = [] \<longrightarrow> findDeepestChild H this = Some (Inr None))
   \<and> (\<forall>b bs. last_chain H this (b # bs) \<longrightarrow> findDeepestChild H this = Some (Inr (Some (last (b # bs)))))
   \<and> (\<forall>root A B C. distinct [root, A, B, C] \<and>
         (\<forall>a \<in> set [root, A, B, C]. \<exists>e. elems H a = Some e \<and> children e = []) \<longrightarrow>
         findDeepestChild (addChild (addChild (addChild H root A) A B) B C) root = Some (Inr (Some C)))"
proof -
  have 1: "findDeepestChild H this = Some (Inr None)" if "elems H this = Some e" "children e = []" for e
    using that by (simp add: findDeepestChild_def)
  have 2: "findDeepestChild H' a = Some (Inr (Some (last (b # bs))))" if lc: "last_chain H' a (b # bs)"
    for H' :: "'a heap" and a b bs
  proof -
    obtain e where e: "elems H' a = Some e" "children e \<noteq> []"
      using lc by (cases "elems H' a") auto
    have "deepest_loop H' a = Some (Inr (last (a # b # bs)))"
      using lc by (rule deepest_loop_chain)
    then show ?thesis
      using e by (simp add: findDeepestChild_def)
  qed
  have 3: "findDeepestChild (addChild (addChild (addChild H root A) A B) B C) root = Some (Inr (Some C))"
    if d: "distinct [root, A, B, C]"
      and a: "\<forall>a \<in> set [root, A, B, C]. \<exists>e. elems H a = Some e \<and> children e = []" for root A B C
  proof -
    let ?H1 = "addChild H root A"
    let ?H2 = "addChild ?H1 A B"
    let ?H3 = "addChild ?H2 B C"
    have al: "elems H root \<noteq> None" "elems H A \<noteq> None" "elems H B \<noteq> None" "elems H C \<noteq> None"
      using a by auto
    have ch: "children_of H root = []" "children_of H A = []" "children_of H B = []" "children_of H C = []"
      using a by (auto simp: children_of_def)
    have al1: "elems ?H1 A \<noteq> None" "elems ?H1 B \<noteq> None"
      using al by (simp_all only: allocated_addChild not_False_eq_True)
    have al2: "elems ?H2 B \<noteq> None" "elems ?H2 C \<noteq> None"
      using al by (simp_all only: allocated_addChild not_False_eq_True)
    have al3: "elems ?H3 x \<noteq> None" if "elems H x \<noteq> None" for x
      using that by (simp only: allocated_addChild not_False_eq_True)
    have c1: "children_of ?H1 x = (if x = root then [A] else children_of H x)" for x
      using children_addChild[OF al(1,2), of x] ch by simp
    have c2: "children_of ?H2 x = (if x = A then [B] else children_of ?H1 x)" for x
      using children_addChild[OF al1, of x] c1[of A] ch d by simp
    have c3: "children_of ?H3 x = (if x = B then [C] else children_of ?H2 x)" for x
      using children_addChild[OF al2, of x] c2[of B] c1[of B] ch d by simp
    have k: "children_of ?H3 C = []" "children_of ?H3 B = [C]" "children_of ?H3 A = [B]"
      "children_of ?H3 root = [A]"
      using d ch by (simp_all add: c3 c2 c1)
    have "last_chain ?H3 C []"
      using al3[OF al(4)] k(1) by (subst last_chain_children_of) simp
    then have "last_chain ?H3 B [C]"
      using al3[OF al(3)] k(2) by (subst last_chain_children_of) simp
    then have "last_chain ?H3 A [B, C]"
      using al3[OF al(2)] k(3) by (subst last_chain_children_of) simp
    then have "last_chain ?H3 root [A, B, C]"
      using al3[OF al(1)] k(4) by (subst last_chain_children_of) simp
    then show ?thesis
      using 2[of ?H3 root A "[B, C]"] by simp
  qed
  show ?thesis
    using 1 2[of H this] 3 by blast
qed

lemma four_divs_elems:
  "\<forall>a \<in> set [0, 1, 2, 3]. \<exists>e. elems four_divs a = Some e \<and> children e = []"
  by (simp add: four_divs_def two_divs_def fresh_div_def ParsedElement_def Let_def empty_heap_def
        div_node_def setContent_def)

lemma two_children_chain: "last_chain (addChild (addChild four_divs 0 1) 0 2) 0 [2]"
  by (simp add: four_divs_def two_divs_def fresh_div_def ParsedElement_def Let_def empty_heap_def
        div_node_def setContent_def addChild_def)

text \<open>
  The theorem at four fresh elements: \<^verbatim>\<open>null\<close> without children, the end of the chain
  0, 1, 2, 3, and the second of two children of one parent.
\<close>

theorem deepest_child_last_witness:
  "distinct [0, 1, 2, 3 :: addr] \<and>
   (\<exists>e. elems four_divs 0 = Some e \<and> children e = []) \<and>
   (\<exists>e. elems four_divs 1 = Some e \<and> children e = []) \<and>
   (\<exists>e. elems four_divs 2 = Some e \<and> children e = []) \<and>
   (\<exists>e. elems four_divs 3 = Some e \<and> children e = []) \<and>
   findDeepestChild four_divs 0 = Some (Inr None) \<and>
   findDeepestChild (addChild (addChild (addChild four_divs 0 1) 1 2) 2 3) 0 = Some (Inr (Some 3)) \<and>
   last_chain (addChild (addChild four_divs 0 1) 0 2) 0 [2] \<and>
   findDeepestChild (addChild (addChild four_divs 0 1) 0 2) 0 = Some (Inr (Some 2))"
proof -
  have d: "distinct [0, 1, 2, 3 :: addr]"
    by simp
  obtain e where e: "elems four_divs 0 = Some e" "children e = []"
    using four_divs_elems by auto
  have 1: "findDeepestChild four_divs 0 = Some (Inr None)"
    using deepest_child_last[of four_divs 0, THEN conjunct1] e by blast
  have 2: "findDeepestChild (addChild (addChild (addChild four_divs 0 1) 1 2) 2 3) 0 = Some (Inr (Some 3))"
    using deepest_child_last[of four_divs 0, THEN conjunct2, THEN conjunct2] d four_divs_elems by blast
  have 3: "findDeepestChild (addChild (addChild four_divs 0 1) 0 2) 0 = Some (Inr (Some (last [2])))"
    using deepest_child_last[of "addChild (addChild four_divs 0 1) 0 2" 0, THEN conjunct2, THEN conjunct1]
      two_children_chain by blast
  show ?thesis
    using d four_divs_elems 1 2 3 two_children_chain by simp
qed

section \<open>The tag factory\<close>

lemma names_kept_refl: "names_kept H H"
  by (simp add: names_kept_def)

lemma names_kept_trans: "names_kept H H' \<Longrightarrow> names_kept H' H'' \<Longrightarrow> names_kept H H''"
  unfolding names_kept_def by fastforce

lemma names_kept_addAttribute: "names_kept H (addAttribute ph H this nm v)"
  by (auto simp: names_kept_def addAttribute_def Let_def split: option.splits hash_entry.splits)

lemma names_kept_addAttributes: "names_kept H (addAttributes ph H this xs)"
proof (induction xs arbitrary: H)
  case Nil
  then show ?case by (simp add: names_kept_refl)
next
  case (Cons x xs)
  obtain nm v where x: "x = (nm, v)" by (cases x)
  let ?H1 = "addAttribute ph H this nm (read_value (proto_value H) v)"
  have "names_kept H ?H1"
    by (rule names_kept_addAttribute)
  moreover have "names_kept ?H1 (addAttributes ph ?H1 this xs)"
    by (rule Cons.IH)
  ultimately show ?case
    unfolding x by (simp add: names_kept_trans)
qed

lemma names_kept_copyAttributes: "names_kept H (copyAttributes ph H this src)"
  by (simp add: copyAttributes_def names_kept_refl names_kept_addAttributes split: option.splits)

lemma ParsedElement_names:
  assumes "ParsedElement ph H node syn r opts = (H0, this)"
  shows "\<exists>e. elems H0 this = Some e \<and> abbr e = r \<and> real_name e = node_name node \<and>
           name e = (case r of Some d \<Rightarrow> res_name d | None \<Rightarrow> node_name node)"
  using assms
  by (cases "node_text node") (auto simp: ParsedElement_def Let_def setContent_def)

lemma parsedElement_names:
  assumes "parsedElement ph getAbbreviation H node syn resource opts = ((H', elem), log)"
  shows "log = snd (resolve_resource getAbbreviation node syn resource) \<and>
         (\<exists>e. elems H' elem = Some e \<and>
            abbr e = fst (resolve_resource getAbbreviation node syn resource) \<and>
            real_name e = node_name node \<and>
            name e = (case fst (resolve_resource getAbbreviation node syn resource) of
                        Some d \<Rightarrow> res_name d | None \<Rightarrow> node_name node))"
proof -
  obtain r lg where rr: "resolve_resource getAbbreviation node syn resource = (r, lg)"
    by (cases "resolve_resource getAbbreviation node syn resource")
  obtain H1 this where P: "ParsedElement ph H node syn r opts = (H1, this)"
    by (cases "ParsedElement ph H node syn r opts")
  obtain e where e: "elems H1 this = Some e" "abbr e = r" "real_name e = node_name node"
    "name e = (case r of Some d \<Rightarrow> res_name d | None \<Rightarrow> node_name node)"
    using ParsedElement_names[OF P] by blast
  define H2 where "H2 = (case r of None \<Rightarrow> H1 | Some d \<Rightarrow> copyAttributes ph H1 this (res_attributes d))"
  define H3 where "H3 = copyAttributes ph H2 this (node_attributes node)"
  have res: "parsedElement ph getAbbreviation H node syn resource opts = ((H3, this), lg)"
    using rr P e(1,2) by (simp add: parsedElement_def Let_def H2_def H3_def)
  have "names_kept H1 H2"
    unfolding H2_def by (simp add: names_kept_refl names_kept_copyAttributes split: option.splits)
  moreover have "names_kept H2 H3"
    unfolding H3_def by (rule names_kept_copyAttributes)
  ultimately have "names_kept H1 H3"
    by (rule names_kept_trans)
  then obtain e' where e': "elems H3 this = Some e'" "name e' = name e" "real_name e' = real_name e"
    "abbr e' = abbr e"
    using e(1) unfolding names_kept_def by blast
  have "((H', elem), log) = ((H3, this), lg)"
    unfolding assms[symmetric] res by simp
  then have "H' = H3" "elem = this" "log = lg"
    by blast+
  then show ?thesis
    using e' e(2,3,4) rr by simp
qed

text \<open>
  C4. When no resource is passed and the store answers the name of the node with a
  reference to \<open>b\<close>, the tag factory calls \<^verbatim>\<open>res.getAbbreviation\<close> twice, for the name
  of the node and then for \<open>b\<close>, and never a third time, whatever the second answer is.
  The element keeps the second answer as \<^verbatim>\<open>_abbr\<close>; where that answer is a definition,
  \<^verbatim>\<open>name\<close> is the \<^verbatim>\<open>name\<close> of that definition, while \<^verbatim>\<open>real_name\<close> is the name of the node.
\<close>

theorem reference_one_hop:
  assumes "node_name node = Some nm" "nm \<noteq> []" "getAbbreviation syn nm = Some (Reference b)"
    "parsedElement ph getAbbreviation H node syn NoResource opts = ((H', elem), log)"
  shows "log = [(syn, nm), (syn, b)]
       \<and> (\<exists>e. elems H' elem = Some e \<and> abbr e = getAbbreviation syn b \<and> real_name e = Some nm \<and>
              (\<forall>d. getAbbreviation syn b = Some d \<longrightarrow> name e = res_name d) \<and>
              (\<forall>n as. getAbbreviation syn b = Some (ElementDef n as) \<longrightarrow> name e = Some n))"
proof -
  have rr: "resolve_resource getAbbreviation node syn NoResource
              = (getAbbreviation syn b, [(syn, nm), (syn, b)])"
    using assms(1,2,3) by (simp add: resolve_resource_def)
  obtain e where e: "elems H' elem = Some e" "abbr e = getAbbreviation syn b"
    "real_name e = node_name node"
    "name e = (case getAbbreviation syn b of Some d \<Rightarrow> res_name d | None \<Rightarrow> node_name node)"
    using parsedElement_names[OF assms(4)] unfolding rr by auto
  have "log = [(syn, nm), (syn, b)]"
    using parsedElement_names[OF assms(4)] unfolding rr by simp
  moreover have "\<forall>d. getAbbreviation syn b = Some d \<longrightarrow> name e = res_name d"
    using e(4) by simp
  moreover have "\<forall>n as. getAbbreviation syn b = Some (ElementDef n as) \<longrightarrow> name e = Some n"
    using e(4) by simp
  ultimately show ?thesis
    using e(1,2,3) assms(1) by auto
qed

text \<open>The theorem at the node \<^verbatim>\<open>bq\<close>: two lookups, and the name \<^verbatim>\<open>blockquote\<close>.\<close>

theorem reference_one_hop_witness:
  "node_name bq_node = Some ''bq'' \<and> ''bq'' \<noteq> [] \<and>
   example_store ''html'' ''bq'' = Some (Reference ''blockquote'') \<and>
   example_store ''html'' ''blockquote'' = Some (ElementDef ''blockquote'' None) \<and>
   snd example_element = [(''html'', ''bq''), (''html'', ''blockquote'')] \<and>
   (\<exists>e. elems (fst (fst example_element)) (snd (fst example_element)) = Some e \<and>
        name e = Some ''blockquote'' \<and> real_name e = Some ''bq'')"
proof -
  have n: "node_name bq_node = Some ''bq''"
    by (simp add: bq_node_def)
  have q: "''bq'' \<noteq> []"
    by simp
  have g: "example_store ''html'' ''bq'' = Some (Reference ''blockquote'')"
    by (simp add: example_store_def)
  have g2: "example_store ''html'' ''blockquote'' = Some (ElementDef ''blockquote'' None)"
    by (simp add: example_store_def)
  have p: "parsedElement ''{caret}'' example_store empty_heap bq_node ''html'' NoResource None
             = ((fst (fst example_element), snd (fst example_element)), snd example_element)"
    by (simp add: example_element_def)
  show ?thesis
    using reference_one_hop[OF n q g p] n g g2 by auto
qed

section \<open>The stores the code builds\<close>

text \<open>
  The empty store satisfies \<open>heap_inv\<close>, and the constructor, the methods and the two
  factories keep it. So \<open>attrs_inv\<close>, which the theorems on attributes assume of one
  element, holds of every element of every store reached from the empty one.
\<close>

lemma heap_inv_empty: "heap_inv empty_heap"
  by (simp add: heap_inv_def empty_heap_def attr_addrs_def)

lemma attrs_inv_cong:
  assumes "attrs_inv H a" "elems H a = Some e" "elems H' a = Some e'"
    "attributes e' = attributes e" "attr_hash e' = attr_hash e"
    "nxt H \<le> nxt H'" "\<forall>x \<in> set (attr_addrs H a). attrs H' x = attrs H x"
  shows "attrs_inv H' a"
proof (cases "attributes e")
  case None
  then show ?thesis
    using assms(1-5) by (auto simp: attrs_inv_def split: option.splits)
next
  case (Some as)
  then obtain h where h: "attr_hash e = Some h"
    using assms(1,2) by (auto simp: attrs_inv_def split: option.splits)
  have inv: "list_all (\<lambda>a. a < nxt H \<and> attrs H a \<noteq> None) as"
    "distinct (map (name_at H) as)"
    "h = map_of (map (\<lambda>a. (name_at H a, a)) as)"
    using assms(1,2) Some h by (simp_all add: attrs_inv_def)
  have same: "\<forall>x \<in> set as. attrs H' x = attrs H x"
    using assms(7,2) Some by (simp add: attr_addrs_def)
  then have nm: "map (name_at H') as = map (name_at H) as"
    by (simp add: name_at_def)
  have nm2: "map (\<lambda>a. (name_at H' a, a)) as = map (\<lambda>a. (name_at H a, a)) as"
    using same by (simp add: name_at_def)
  have "list_all (\<lambda>a. a < nxt H' \<and> attrs H' a \<noteq> None) as"
    using inv(1) same assms(6) by (auto simp: list_all_iff)
  then show ?thesis
    using assms(3,4,5) Some h inv(2,3) by (simp add: attrs_inv_def nm nm2)
qed

lemma attr_addrs_bound:
  "attrs_inv H a \<Longrightarrow> \<forall>x \<in> set (attr_addrs H a). x < nxt H"
  by (auto simp: attrs_inv_def attr_addrs_def list_all_iff split: option.splits)

lemma own_in_attributes:
  assumes "attrs_inv H this" "elems H this = Some e"
    "hash_lookup pv (case attr_hash e of None \<Rightarrow> Map.empty | Some m \<Rightarrow> m) nm = Own a"
  shows "a \<in> set (attr_addrs H this)"
proof (cases "attributes e")
  case None
  then have "attr_hash e = None"
    using assms(1,2) by (auto simp: attrs_inv_def split: option.splits)
  then show ?thesis
    using assms(3) by (simp add: hash_lookup_def split: if_splits)
next
  case (Some as)
  then obtain h where h: "attr_hash e = Some h"
    using assms(1,2) by (auto simp: attrs_inv_def split: option.splits)
  have inv: "distinct (map (name_at H) as)" "h = map_of (map (\<lambda>a. (name_at H a, a)) as)"
    using assms(1,2) Some h by (simp_all add: attrs_inv_def)
  have "h nm = Some a"
    using assms(3) h by (simp add: hash_lookup_def split: option.splits if_splits)
  then have "a \<in> set as"
    using inv by (simp add: map_of_names_Some)
  then show ?thesis
    using assms(2) Some by (simp add: attr_addrs_def)
qed

lemma addAttribute_frame:
  assumes "attrs_inv H this"
  shows "(\<forall>b. b \<noteq> this \<longrightarrow> elems (addAttribute ph H this nm v) b = elems H b)"
    and "elems (addAttribute ph H this nm v) this \<noteq> None"
    and "nxt H \<le> nxt (addAttribute ph H this nm v)"
    and "\<forall>x. x \<notin> set (attr_addrs H this) \<and> x \<noteq> nxt H \<longrightarrow>
           attrs (addAttribute ph H this nm v) x = attrs H x"
    and "set (attr_addrs (addAttribute ph H this nm v) this) \<subseteq> set (attr_addrs H this) \<union> {nxt H}"
proof -
  obtain e where e: "elems H this = Some e"
    using assms by (auto simp: attrs_inv_def split: option.splits)
  let ?h = "case attr_hash e of None \<Rightarrow> Map.empty | Some m \<Rightarrow> m"
  have own: "a \<in> set (attr_addrs H this)" if "hash_lookup (proto_value H) ?h nm = Own a" for a
    using assms e that by (rule own_in_attributes)
  show "\<forall>b. b \<noteq> this \<longrightarrow> elems (addAttribute ph H this nm v) b = elems H b"
    using e by (auto simp: addAttribute_def Let_def split: hash_entry.splits option.splits)
  show "elems (addAttribute ph H this nm v) this \<noteq> None"
    using e by (auto simp: addAttribute_def Let_def split: hash_entry.splits option.splits)
  show "nxt H \<le> nxt (addAttribute ph H this nm v)"
    using e by (auto simp: addAttribute_def Let_def split: hash_entry.splits option.splits)
  show "\<forall>x. x \<notin> set (attr_addrs H this) \<and> x \<noteq> nxt H \<longrightarrow>
           attrs (addAttribute ph H this nm v) x = attrs H x"
  proof (cases "hash_lookup (proto_value H) ?h nm")
    case (Own a)
    then show ?thesis
      using e own[OF Own] by (auto simp: addAttribute_def Let_def split: option.splits)
  next
    case Prototype
    then show ?thesis
      using e by (auto simp: addAttribute_def Let_def)
  next
    case Inherited
    then show ?thesis
      using e by (auto simp: addAttribute_def Let_def)
  next
    case Absent
    then show ?thesis
      using e by (auto simp: addAttribute_def Let_def)
  qed
  show "set (attr_addrs (addAttribute ph H this nm v) this) \<subseteq> set (attr_addrs H this) \<union> {nxt H}"
    using e by (auto simp: addAttribute_def Let_def attr_addrs_def split: hash_entry.splits option.splits)
qed

lemma heap_inv_addAttribute:
  assumes "heap_inv H"
  shows "heap_inv (addAttribute ph H this nm v)"
proof (cases "elems H this")
  case None
  then show ?thesis
    using assms by (simp add: addAttribute_def)
next
  case (Some e)
  let ?H' = "addAttribute ph H this nm v"
  have inv: "attrs_inv H this"
    using assms Some by (simp add: heap_inv_def)
  note fr = addAttribute_frame[OF inv, of ph nm v]
  have bound: "\<forall>a. \<forall>x \<in> set (attr_addrs H a). x < nxt H"
  proof (intro allI)
    fix a
    show "\<forall>x \<in> set (attr_addrs H a). x < nxt H"
    proof (cases "elems H a")
      case None
      then show ?thesis by (simp add: attr_addrs_def)
    next
      case (Some ea)
      then have "attrs_inv H a" using assms by (simp add: heap_inv_def)
      then show ?thesis by (rule attr_addrs_bound)
    qed
  qed
  have other_addrs: "attr_addrs ?H' b = attr_addrs H b" if "b \<noteq> this" for b
    using fr(1) that by (simp add: attr_addrs_def)
  have disj: "set (attr_addrs H a) \<inter> set (attr_addrs H b) = {}" if "a \<noteq> b" for a b
    using assms that by (simp add: heap_inv_def)
  have 1: "a < nxt ?H' \<and> attrs_inv ?H' a" if al: "elems ?H' a \<noteq> None" for a
  proof (cases "a = this")
    case True
    have "this < nxt H" using assms Some by (simp add: heap_inv_def)
    then have "this < nxt ?H'" using fr(3) by simp
    moreover have "attrs_inv ?H' this" using inv by (rule attrs_inv_addAttribute)
    ultimately show ?thesis using True by simp
  next
    case False
    then have same: "elems ?H' a = elems H a" using fr(1) by simp
    then obtain ea where ea: "elems H a = Some ea" using al by auto
    have ia: "a < nxt H" "attrs_inv H a" using assms ea by (simp_all add: heap_inv_def)
    have "\<forall>x \<in> set (attr_addrs H a). attrs ?H' x = attrs H x"
    proof
      fix x assume x: "x \<in> set (attr_addrs H a)"
      then have "x \<notin> set (attr_addrs H this)" using disj[OF False] by auto
      moreover have "x \<noteq> nxt H" using bound x by auto
      ultimately show "attrs ?H' x = attrs H x" using fr(4) by simp
    qed
    then have "attrs_inv ?H' a"
      using attrs_inv_cong[OF ia(2) ea, of ?H' ea] same ea fr(3) by simp
    then show ?thesis using ia(1) fr(3) by simp
  qed
  have 2: "set (attr_addrs ?H' a) \<inter> set (attr_addrs ?H' b) = {}" if ab: "a \<noteq> b" for a b
  proof -
    have k: "set (attr_addrs ?H' this) \<inter> set (attr_addrs H c) = {}" if "c \<noteq> this" for c
    proof -
      have "set (attr_addrs H this) \<inter> set (attr_addrs H c) = {}"
        using disj[of this c] that by simp
      moreover have "nxt H \<notin> set (attr_addrs H c)"
        using bound by auto
      ultimately show ?thesis using fr(5) by auto
    qed
    show ?thesis
    proof (cases "a = this")
      case True
      then have "b \<noteq> this" using ab by simp
      then show ?thesis using True k[of b] other_addrs[of b] by simp
    next
      case False
      show ?thesis
      proof (cases "b = this")
        case True
        then show ?thesis using False k[of a] other_addrs[of a] by auto
      next
        case bf: False
        then show ?thesis using False other_addrs disj[OF ab] by simp
      qed
    qed
  qed
  show ?thesis
    unfolding heap_inv_def using 1 2 by blast
qed

lemma heap_inv_fields:
  assumes "heap_inv H" "nxt H' = nxt H" "attrs H' = attrs H"
    "\<forall>a. elems H' a = None \<longleftrightarrow> elems H a = None"
    "\<forall>a e e'. elems H a = Some e \<and> elems H' a = Some e' \<longrightarrow>
       attributes e' = attributes e \<and> attr_hash e' = attr_hash e"
  shows "heap_inv H'"
proof -
  have ad: "attr_addrs H' a = attr_addrs H a" for a
  proof (cases "elems H a")
    case None
    then have "elems H' a = None" using assms(4) by simp
    with None show ?thesis by (simp add: attr_addrs_def)
  next
    case (Some e)
    then have "elems H' a \<noteq> None" using assms(4) by (metis option.distinct(1))
    then obtain e' where e': "elems H' a = Some e'" by auto
    then have "attributes e' = attributes e" using assms(5) Some by blast
    then show ?thesis using Some e' by (simp add: attr_addrs_def)
  qed
  have "a < nxt H' \<and> attrs_inv H' a" if al: "elems H' a \<noteq> None" for a
  proof -
    obtain e' where e': "elems H' a = Some e'" using al by auto
    have "elems H a \<noteq> None" using assms(4) e' by (metis option.distinct(1))
    then obtain e where e: "elems H a = Some e" by auto
    have i: "a < nxt H" "attrs_inv H a" using assms(1) e by (simp_all add: heap_inv_def)
    have f: "attributes e' = attributes e" "attr_hash e' = attr_hash e"
      using assms(5) e e' by blast+
    have "attrs_inv H' a"
      using attrs_inv_cong[OF i(2) e e' f] assms(2,3) by simp
    then show ?thesis using i(1) assms(2) by simp
  qed
  moreover have "set (attr_addrs H' a) \<inter> set (attr_addrs H' b) = {}" if "a \<noteq> b" for a b
    using assms(1) that by (simp add: ad heap_inv_def)
  ultimately show ?thesis
    unfolding heap_inv_def by blast
qed

lemma heap_inv_setContent: "heap_inv H \<Longrightarrow> heap_inv (setContent ph H this d)"
  by (erule heap_inv_fields; cases d) (auto simp: setContent_def split: option.splits if_splits)

lemma heap_inv_setPasteContent: "heap_inv H \<Longrightarrow> heap_inv (setPasteContent esc H this v)"
  by (erule heap_inv_fields) (auto simp: setPasteContent_def split: option.splits if_splits)

lemma heap_inv_addChild: "heap_inv H \<Longrightarrow> heap_inv (addChild H this elem)"
  by (erule heap_inv_fields) (auto simp: addChild_def Let_def split: option.splits if_splits)

lemma heap_inv_addAttributes: "heap_inv H \<Longrightarrow> heap_inv (addAttributes ph H this xs)"
  by (induction xs arbitrary: H) (auto simp: heap_inv_addAttribute)

lemma heap_inv_copyAttributes: "heap_inv H \<Longrightarrow> heap_inv (copyAttributes ph H this src)"
  by (simp add: copyAttributes_def heap_inv_addAttributes split: option.splits)

lemma heap_inv_alloc:
  assumes "heap_inv H" "attributes e = None" "attr_hash e = None"
  shows "heap_inv (H\<lparr>elems := (elems H)(nxt H \<mapsto> e), nxt := Suc (nxt H)\<rparr>)"
proof -
  let ?H' = "H\<lparr>elems := (elems H)(nxt H \<mapsto> e), nxt := Suc (nxt H)\<rparr>"
  have free: "elems H (nxt H) = None"
    using assms(1) by (auto simp: heap_inv_def)
  have ad: "attr_addrs ?H' a = attr_addrs H a" for a
    using free assms(2) by (simp add: attr_addrs_def)
  have "a < nxt ?H' \<and> attrs_inv ?H' a" if al: "elems ?H' a \<noteq> None" for a
  proof (cases "a = nxt H")
    case True
    then show ?thesis using assms(2,3) by (simp add: attrs_inv_def)
  next
    case False
    then obtain ea where ea: "elems H a = Some ea" using al by auto
    have i: "a < nxt H" "attrs_inv H a" using assms(1) ea by (simp_all add: heap_inv_def)
    have "elems ?H' a = Some ea" using False ea by simp
    then have "attrs_inv ?H' a"
      using attrs_inv_cong[OF i(2) ea, of ?H' ea] by simp
    then show ?thesis using i(1) by simp
  qed
  moreover have "set (attr_addrs ?H' a) \<inter> set (attr_addrs ?H' b) = {}" if "a \<noteq> b" for a b
    using assms(1) that by (simp only: ad) (simp add: heap_inv_def)
  ultimately show ?thesis
    unfolding heap_inv_def by blast
qed

lemma heap_inv_ParsedElement:
  "heap_inv H \<Longrightarrow> heap_inv (fst (ParsedElement ph H node syn r opts))"
  by (simp add: ParsedElement_def Let_def heap_inv_setContent heap_inv_alloc)

lemma heap_inv_parsedElement:
  "heap_inv H \<Longrightarrow> heap_inv (fst (fst (parsedElement ph getAbbreviation H node syn resource opts)))"
proof -
  assume H: "heap_inv H"
  obtain r lg where rr: "resolve_resource getAbbreviation node syn resource = (r, lg)"
    by (cases "resolve_resource getAbbreviation node syn resource")
  obtain H1 this where P: "ParsedElement ph H node syn r opts = (H1, this)"
    by (cases "ParsedElement ph H node syn r opts")
  have "heap_inv H1"
    using heap_inv_ParsedElement[OF H, of ph node syn r opts] P by simp
  then show ?thesis
    using rr P by (simp add: parsedElement_def Let_def heap_inv_copyAttributes split: option.splits)
qed

lemma heap_inv_parsedSnippet:
  assumes "heap_inv H" "parsedSnippet ph getSnippet H node syn resource opts = Inr (H', elem)"
  shows "heap_inv H'"
proof -
  define r where "r = (case resource of ByName s \<Rightarrow> Some (Snippet s) | Given d \<Rightarrow> Some d | NoResource \<Rightarrow> None)"
  obtain H1 this where P: "ParsedElement ph H node syn r opts = (H1, this)"
    by (cases "ParsedElement ph H node syn r opts")
  have H1: "heap_inv H1"
    using heap_inv_ParsedElement[OF assms(1), of ph node syn r opts] P by simp
  have H2: "heap_inv (H1\<lparr>elems := (elems H1)(this \<mapsto> e\<lparr>snippet_value := x\<rparr>)\<rparr>)"
    if "elems H1 this = Some e" for e x
    using H1 by (rule heap_inv_fields) (use that in \<open>auto split: if_splits\<close>)
  show ?thesis
    using assms(2) P H1 H2
    by (auto simp: parsedSnippet_def Let_def r_def[symmetric] heap_inv_copyAttributes
          heap_inv_addAttribute split: option.splits)
qed

lemma heap_inv_operation: "heap_inv H \<Longrightarrow> heap_inv (apply_operation ph esc H x)"
  by (cases x)
    (simp_all add: heap_inv_addChild heap_inv_addAttribute heap_inv_copyAttributes
       heap_inv_setContent heap_inv_setPasteContent)

lemma heap_inv_operations: "heap_inv H \<Longrightarrow> heap_inv (apply_operations ph esc H xs)"
  by (induction xs arbitrary: H) (auto simp: heap_inv_operation)

lemma heap_inv_attrs_inv: "heap_inv H \<Longrightarrow> elems H this = Some e \<Longrightarrow> attrs_inv H this"
  by (simp add: heap_inv_def)

section \<open>A cycle\<close>

text \<open>
  After \<^verbatim>\<open>e.addChild(e)\<close> the loop of \<^verbatim>\<open>findDeepestChild\<close> does not end: the call has no
  result.
\<close>

lemma self_child_elem:
  "\<exists>e. elems (addChild fresh_div 0 0) 0 = Some e \<and> children e = [0]"
  by (simp add: fresh_div_def ParsedElement_def Let_def empty_heap_def div_node_def setContent_def
        addChild_def)

lemma self_child_loop: "deepest_loop (addChild fresh_div 0 0) 0 = None"
proof (rule ccontr)
  assume "deepest_loop (addChild fresh_div 0 0) 0 \<noteq> None"
  then obtain y where y: "deepest_loop (addChild fresh_div 0 0) 0 = Some y"
    by auto
  obtain e where e: "elems (addChild fresh_div 0 0) 0 = Some e" "children e = [0]"
    using self_child_elem by blast
  have "\<not> (H = addChild fresh_div 0 0 \<and> d = 0)" if r: "deepest_loop H d = Some r" for H d r
  proof (rule deepest_loop.raw_induct[where P = "\<lambda>H d r. \<not> (H = addChild fresh_div 0 0 \<and> d = 0)", OF _ r])
    fix f :: "unit heap \<Rightarrow> addr \<Rightarrow> (error + addr) option" and H' d' r'
    assume IH: "\<And>H d r. f H d = Some r \<Longrightarrow> \<not> (H = addChild fresh_div 0 0 \<and> d = 0)"
      and body: "(case elems H' d' of None \<Rightarrow> Some (Inl TypeError)
                  | Some e \<Rightarrow> if children e \<noteq> [] then f H' (last (children e)) else Some (Inr d'))
                 = Some r'"
    show "\<not> (H' = addChild fresh_div 0 0 \<and> d' = 0)"
    proof
      assume hd: "H' = addChild fresh_div 0 0 \<and> d' = 0"
      then have "f H' d' = Some r'"
        using body e by simp
      then show False
        using IH hd by blast
    qed
  qed
  then show False
    using y by blast
qed

lemma self_child_never_returns: "findDeepestChild (addChild fresh_div 0 0) 0 = None"
  using self_child_elem by (auto simp: findDeepestChild_def self_child_loop)

end
